theory Spec2Isabelle
  imports Main
begin

text \<open>
  \<open>compute_sales.py\<close> loads a price catalogue and a sales record from two JSON files,
  builds a dict from product to price, adds up \<open>price * quantity\<close> over the line items
  of the sales, and prints and stores a summary. Each of its functions is embedded
  below under its own name. An exception is a value of \<open>py_error\<close>; a function that
  prints returns the list of what it printed, one event for each \<open>print\<close>. The console
  is open and encodes as UTF-8, so a \<open>print\<close> raises exactly when its text holds a lone
  surrogate. What the file system and the clock do is a parameter (\<open>env\<close>), as is
  Python's conversion of a string to a float.
\<close>

section \<open>Python values used by compute\_sales.py\<close>

subsection \<open>Floats: IEEE 754 binary64, round to nearest, ties to even\<close>

text \<open>
  Python's \<open>float\<close> is a C double. Every finite double is an integer multiple of
  \<open>2^-1074\<close> (the smallest subnormal), so a finite float is kept as its sign and its
  magnitude counted in that unit: \<open>Fin neg m\<close> is \<open>(-1)^neg * m * 2^-1074\<close>, with
  \<open>m < 2^2098\<close> and at most 53 significant bits. \<open>-0.0\<close> is \<open>Fin True 0\<close>.
\<close>

datatype pyfloat = NaN | Inf bool | Fin bool nat

fun bit_length :: "nat \<Rightarrow> nat" where
  "bit_length n = (if n = 0 then 0 else Suc (bit_length (n div 2)))"

declare bit_length.simps [simp del]

text \<open>
  \<open>round_mag u N\<close> rounds the exact magnitude \<open>N * 2^-(1074+u)\<close> to the nearest
  magnitude with at most 53 significant bits that is a multiple of \<open>2^-1074\<close>, ties to
  the even significand; the result is again counted in units of \<open>2^-1074\<close>.
\<close>

definition round_mag :: "nat \<Rightarrow> nat \<Rightarrow> nat" where
  "round_mag u N =
     (let sh = max u (bit_length N - 53);
          q = N div 2 ^ sh;
          r = N mod 2 ^ sh;
          q' = (if sh = 0 then q
                else if 2 ^ (sh - 1) < r \<or> (r = 2 ^ (sh - 1) \<and> odd q) then q + 1
                else q)
      in q' * 2 ^ (sh - u))"

text \<open>
  \<open>one_mag\<close> is the magnitude of \<open>1.0\<close>. \<open>inf_mag\<close> is \<open>2^1024\<close>, the first
  magnitude beyond the largest double: a rounded result that reaches it is an infinity.
\<close>

definition one_mag :: nat where
  "one_mag = 2 ^ 1074"

definition inf_mag :: nat where
  "inf_mag = 2 ^ 2098"

definition mk_float :: "bool \<Rightarrow> nat \<Rightarrow> pyfloat" where
  "mk_float neg m = (if inf_mag \<le> m then Inf neg else Fin neg m)"

definition signed :: "bool \<Rightarrow> nat \<Rightarrow> int" where
  "signed neg m = (if neg then - int m else int m)"

fun fadd :: "pyfloat \<Rightarrow> pyfloat \<Rightarrow> pyfloat" where
  "fadd NaN _ = NaN"
| "fadd _ NaN = NaN"
| "fadd (Inf a) (Inf b) = (if a = b then Inf a else NaN)"
| "fadd (Inf a) (Fin _ _) = Inf a"
| "fadd (Fin _ _) (Inf b) = Inf b"
| "fadd (Fin a m) (Fin b n) =
     (let s = signed a m + signed b n
      in if s = 0 then Fin (a \<and> b) 0
         else mk_float (s < 0) (round_mag 0 (nat \<bar>s\<bar>)))"

fun fmul :: "pyfloat \<Rightarrow> pyfloat \<Rightarrow> pyfloat" where
  "fmul NaN _ = NaN"
| "fmul _ NaN = NaN"
| "fmul (Inf a) (Inf b) = Inf (a \<noteq> b)"
| "fmul (Inf a) (Fin b n) = (if n = 0 then NaN else Inf (a \<noteq> b))"
| "fmul (Fin a m) (Inf b) = (if m = 0 then NaN else Inf (a \<noteq> b))"
| "fmul (Fin a m) (Fin b n) = mk_float (a \<noteq> b) (round_mag 1074 (m * n))"

definition fzero :: pyfloat where
  "fzero = Fin False 0"

definition fone :: pyfloat where
  "fone = Fin False one_mag"

text \<open>Python's \<open><=\<close> on floats: false whenever a NaN is involved, \<open>-0.0 == 0.0\<close>.\<close>

fun fle :: "pyfloat \<Rightarrow> pyfloat \<Rightarrow> bool" where
  "fle NaN _ = False"
| "fle _ NaN = False"
| "fle (Inf a) (Inf b) = (a \<or> \<not> b)"
| "fle (Inf a) (Fin _ _) = a"
| "fle (Fin _ _) (Inf b) = (\<not> b)"
| "fle (Fin a m) (Fin b n) = (signed a m \<le> signed b n)"

subsection \<open>Parsed JSON documents\<close>

text \<open>
  What \<open>json.load\<close> returns: \<open>None\<close>, \<open>bool\<close>, \<open>int\<close> (unbounded), \<open>float\<close>,
  \<open>str\<close>, \<open>list\<close> and \<open>dict\<close> with string keys. A dict is kept as the list of its
  items in insertion order.

  A \<open>str\<close> is kept as the bytes of its UTF-8 encoding. A Python \<open>str\<close> can also hold a
  lone surrogate (\<open>json.load\<close> yields one for the escape \<open>\ud800\<close>, \<open>sys.argv\<close> for a
  byte of the command line that is not UTF-8); it is kept as the three bytes
  \<open>ED A0..BF 80..BF\<close> that the \<open>surrogatepass\<close> error handler gives it, which no valid
  UTF-8 text contains.
\<close>

datatype json =
    JNull
  | JBool bool
  | JInt int
  | JFloat pyfloat
  | JStr string
  | JArr "json list"
  | JObj "(string \<times> json) list"

datatype py_error =
    KeyError | ValueError | TypeError | AttributeError | OverflowError
  | UnicodeEncodeError | UnicodeDecodeError | OtherError

fun lone_surrogate :: "string \<Rightarrow> bool" where
  "lone_surrogate (a # b # s) =
     ((of_char a = (0xED::nat) \<and> (0xA0::nat) \<le> of_char b) \<or> lone_surrogate (b # s))"
| "lone_surrogate _ = False"

text \<open>
  The characters of a \<open>str\<close>: a byte that is not a continuation byte (\<open>80..BF\<close>) starts
  a character, and the continuation bytes after it belong to it.
\<close>

definition continuation :: "char \<Rightarrow> bool" where
  "continuation c = ((0x80::nat) \<le> of_char c \<and> of_char c < (0xC0::nat))"

fun characters :: "string \<Rightarrow> string list" where
  "characters [] = []"
| "characters (c # s) =
     (case characters s of
        [] \<Rightarrow> [[c]]
      | g # gs \<Rightarrow> if continuation (hd g) then (c # g) # gs else [c] # g # gs)"

type_synonym 'a res = "py_error + 'a"

text \<open>\<open>obj[key]\<close> with a string key: only a dict supports it.\<close>

fun subscript :: "json \<Rightarrow> string \<Rightarrow> json res" where
  "subscript (JObj kvs) k = (case map_of kvs k of None \<Rightarrow> Inl KeyError | Some v \<Rightarrow> Inr v)"
| "subscript _ k = Inl TypeError"

text \<open>\<open>obj.get(key, default)\<close>: only a dict has the method.\<close>

fun dict_get :: "json \<Rightarrow> string \<Rightarrow> json \<Rightarrow> json res" where
  "dict_get (JObj kvs) k d = (case map_of kvs k of None \<Rightarrow> Inr d | Some v \<Rightarrow> Inr v)"
| "dict_get _ k d = Inl AttributeError"

text \<open>
  \<open>for x in obj\<close>: a list yields its elements, a dict its keys, a string its characters;
  anything else is not iterable.
\<close>

fun py_iter :: "json \<Rightarrow> json list res" where
  "py_iter (JArr xs) = Inr xs"
| "py_iter (JObj kvs) = Inr (map (\<lambda>kv. JStr (fst kv)) kvs)"
| "py_iter (JStr s) = Inr (map JStr (characters s))"
| "py_iter _ = Inl TypeError"

text \<open>
  \<open>float(int)\<close> rounds to nearest even and raises \<open>OverflowError\<close> when the integer
  is beyond the largest double.
\<close>

definition float_of_int :: "int \<Rightarrow> pyfloat res" where
  "float_of_int i =
     (let m = round_mag 0 (nat \<bar>i\<bar> * one_mag)
      in if inf_mag \<le> m then Inl OverflowError else Inr (Fin (i < 0) m))"

text \<open>
  \<open>float(x)\<close>. The conversion of a string is Python's own parser, taken as the parameter
  \<open>P\<close>: \<open>P s = None\<close> when \<open>float(s)\<close> raises \<open>ValueError\<close>.
\<close>

type_synonym str_parser = "string \<Rightarrow> pyfloat option"

fun py_float :: "str_parser \<Rightarrow> json \<Rightarrow> pyfloat res" where
  "py_float P (JFloat f) = Inr f"
| "py_float P (JInt i) = float_of_int i"
| "py_float P (JBool b) = Inr (if b then fone else fzero)"
| "py_float P (JStr s) = (case P s of None \<Rightarrow> Inl ValueError | Some f \<Rightarrow> Inr f)"
| "py_float P _ = Inl TypeError"

subsection \<open>Dictionary keys\<close>

text \<open>
  A dict identifies keys that are equal and hash alike: \<open>1\<close>, \<open>1.0\<close> and \<open>True\<close> are
  one key, as are \<open>0.0\<close> and \<open>-0.0\<close>. A number is keyed by its exact value in units of
  \<open>2^-1074\<close>. Lists and dicts are unhashable. The one NaN that \<open>json\<close> produces is a
  single object, which a dict finds by identity.
\<close>

datatype pykey = KNone | KStr string | KNum int | KInf bool | KNaN

fun py_key :: "json \<Rightarrow> pykey res" where
  "py_key JNull = Inr KNone"
| "py_key (JBool b) = Inr (KNum (if b then int one_mag else 0))"
| "py_key (JInt i) = Inr (KNum (i * int one_mag))"
| "py_key (JFloat NaN) = Inr KNaN"
| "py_key (JFloat (Inf s)) = Inr (KInf s)"
| "py_key (JFloat (Fin s m)) = Inr (KNum (signed s m))"
| "py_key (JStr s) = Inr (KStr s)"
| "py_key (JArr _) = Inl TypeError"
| "py_key (JObj _) = Inl TypeError"

type_synonym price_dict = "pykey \<rightharpoonup> pyfloat"

subsection \<open>Console output\<close>

text \<open>Each \<open>print\<close> is one event, carrying the value the message interpolates.\<close>

datatype msg =
    ErrNotFound string
  | ErrInvalidJSON string
  | ErrCannotOpen string string
  | WarnInvalidPrice json
  | WarnInvalidItems json
  | WarnNotInCatalogue json
  | WarnInvalidItem json
  | Usage
  | Summary pyfloat pyfloat
  | ErrWrite string

text \<open>
  \<open>except (KeyError, ValueError, TypeError)\<close>. \<open>UnicodeEncodeError\<close> and
  \<open>UnicodeDecodeError\<close> are subclasses of \<open>ValueError\<close>.
\<close>

fun caught :: "py_error \<Rightarrow> bool" where
  "caught KeyError = True"
| "caught ValueError = True"
| "caught TypeError = True"
| "caught UnicodeEncodeError = True"
| "caught UnicodeDecodeError = True"
| "caught _ = False"

text \<open>
  \<open>print(f"...{v}...")\<close> on a console that encodes as UTF-8, Python's default. A
  \<open>str\<close> is written as it is, and a lone surrogate in it makes \<open>print\<close> raise
  \<open>UnicodeEncodeError\<close> before anything is written. Every other value is written as its
  \<open>repr\<close>, which escapes the surrogates of the strings inside it and is always encoded.
\<close>

fun refused :: "json \<Rightarrow> bool" where
  "refused (JStr s) = lone_surrogate s"
| "refused _ = False"

section \<open>build\_price\_dict\<close>

text \<open>
  The body of the \<open>try\<close>: \<open>product = entry["product"]\<close>,
  \<open>price = float(entry["price"])\<close>, then the store, which hashes the product.
\<close>

definition price_entry :: "str_parser \<Rightarrow> json \<Rightarrow> (pykey \<times> pyfloat) res" where
  "price_entry P entry =
     (case subscript entry ''product'' of Inl e \<Rightarrow> Inl e | Inr product \<Rightarrow>
      case subscript entry ''price'' of Inl e \<Rightarrow> Inl e | Inr pv \<Rightarrow>
      case py_float P pv of Inl e \<Rightarrow> Inl e | Inr price \<Rightarrow>
      case py_key product of Inl e \<Rightarrow> Inl e | Inr k \<Rightarrow> Inr (k, price))"

text \<open>
  The loop over the catalogue; the state is the dict and the console. The \<open>print\<close> of
  the handler is outside every \<open>try\<close>: when it raises, the exception leaves the
  function.
\<close>

fun build_loop ::
  "str_parser \<Rightarrow> json list \<Rightarrow> price_dict \<times> msg list \<Rightarrow> py_error option \<times> price_dict \<times> msg list"
where
  "build_loop P [] (d, out) = (None, d, out)"
| "build_loop P (entry # rest) (d, out) =
     (case price_entry P entry of
        Inr (k, price) \<Rightarrow> build_loop P rest (d(k \<mapsto> price), out)
      | Inl e \<Rightarrow>
          if caught e then
            (if refused entry then (Some UnicodeEncodeError, d, out)
             else build_loop P rest (d, out @ [WarnInvalidPrice entry]))
          else (Some e, d, out))"

definition build_price_dict :: "str_parser \<Rightarrow> json \<Rightarrow> price_dict res \<times> msg list" where
  "build_price_dict P price_data =
     (case py_iter price_data of
        Inl e \<Rightarrow> (Inl e, [])
      | Inr entries \<Rightarrow>
          (case build_loop P entries (Map.empty, []) of
             (None, d, out) \<Rightarrow> (Inr d, out)
           | (Some e, d, out) \<Rightarrow> (Inl e, out)))"

section \<open>compute\_total\_sales\<close>

record agg_state =
  prices :: price_dict
  total :: pyfloat
  console :: "msg list"

definition emit :: "msg \<Rightarrow> agg_state \<Rightarrow> agg_state" where
  "emit m s = s\<lparr>console := console s @ [m]\<rparr>"

text \<open>
  The body of the inner \<open>try\<close>, up to the amount to add: \<open>Inr (product, Some x)\<close>.
  \<open>Inr (product, None)\<close> is the \<open>continue\<close> taken when the product is not in the
  catalogue, \<open>Inl e\<close> the exception raised on the way.
\<close>

definition item_amount :: "str_parser \<Rightarrow> price_dict \<Rightarrow> json \<Rightarrow> (json \<times> pyfloat option) res" where
  "item_amount P d item =
     (case subscript item ''product'' of Inl e \<Rightarrow> Inl e | Inr product \<Rightarrow>
      case subscript item ''quantity'' of Inl e \<Rightarrow> Inl e | Inr qv \<Rightarrow>
      case py_float P qv of Inl e \<Rightarrow> Inl e | Inr quantity \<Rightarrow>
      case py_key product of Inl e \<Rightarrow> Inl e | Inr k \<Rightarrow>
      (case d k of
         None \<Rightarrow> Inr (product, None)
       | Some price \<Rightarrow> Inr (product, Some (fmul price quantity))))"

text \<open>
  The \<open>except\<close> clause for an exception \<open>e\<close> of the \<open>try\<close> body. Its \<open>print\<close> is
  outside every \<open>try\<close>: when it raises, the exception leaves the function.
\<close>

definition item_handler :: "py_error \<Rightarrow> json \<Rightarrow> agg_state \<Rightarrow> py_error option \<times> agg_state" where
  "item_handler e item s =
     (if caught e then
        (if refused item then (Some UnicodeEncodeError, s)
         else (None, emit (WarnInvalidItem item) s))
      else (Some e, s))"

text \<open>
  One turn of the inner loop. The \<open>print\<close> for a product that is not in the catalogue
  is inside the \<open>try\<close>: when it raises, the \<open>except\<close> clause takes over.
\<close>

definition process_item :: "str_parser \<Rightarrow> json \<Rightarrow> agg_state \<Rightarrow> py_error option \<times> agg_state" where
  "process_item P item s =
     (case item_amount P (prices s) item of
        Inr (product, None) \<Rightarrow>
          if refused product then item_handler UnicodeEncodeError item s
          else (None, emit (WarnNotInCatalogue product) s)
      | Inr (product, Some x) \<Rightarrow> (None, s\<lparr>total := fadd (total s) x\<rparr>)
      | Inl e \<Rightarrow> item_handler e item s)"

fun items_loop :: "str_parser \<Rightarrow> json list \<Rightarrow> agg_state \<Rightarrow> py_error option \<times> agg_state" where
  "items_loop P [] s = (None, s)"
| "items_loop P (item # rest) s =
     (case process_item P item s of
        (None, s') \<Rightarrow> items_loop P rest s'
      | (Some e, s') \<Rightarrow> (Some e, s'))"

text \<open>
  One turn of the outer loop. The \<open>print\<close> writes a dict (\<open>sale.get\<close> has returned),
  so it is never refused.
\<close>

definition process_sale :: "str_parser \<Rightarrow> json \<Rightarrow> agg_state \<Rightarrow> py_error option \<times> agg_state" where
  "process_sale P sale s =
     (case dict_get sale ''items'' (JArr []) of
        Inl e \<Rightarrow> (Some e, s)
      | Inr (JArr items) \<Rightarrow> items_loop P items s
      | Inr _ \<Rightarrow> (None, emit (WarnInvalidItems sale) s))"

fun sales_loop :: "str_parser \<Rightarrow> json list \<Rightarrow> agg_state \<Rightarrow> py_error option \<times> agg_state" where
  "sales_loop P [] s = (None, s)"
| "sales_loop P (sale # rest) s =
     (case process_sale P sale s of
        (None, s') \<Rightarrow> sales_loop P rest s'
      | (Some e, s') \<Rightarrow> (Some e, s'))"

text \<open>
  The function: the returned float or the exception that leaves it, with the
  state (dict and console) it leaves behind.
\<close>

definition compute_total_sales ::
  "str_parser \<Rightarrow> json \<Rightarrow> price_dict \<Rightarrow> pyfloat res \<times> agg_state" where
  "compute_total_sales P sales_data d =
     (let s0 = \<lparr>prices = d, total = fzero, console = []\<rparr>
      in case py_iter sales_data of
           Inl e \<Rightarrow> (Inl e, s0)
         | Inr sales \<Rightarrow>
             (case sales_loop P sales s0 of
                (None, s) \<Rightarrow> (Inr (total s), s)
              | (Some e, s) \<Rightarrow> (Inl e, s)))"

section \<open>load\_json\_file, write\_results and main\<close>

text \<open>
  What \<open>open(filename)\<close> followed by \<open>json.load(file)\<close> does is the environment's:
  it yields the parsed document or raises. \<open>NoSuchFile\<close> is \<open>FileNotFoundError\<close> (no
  such file); \<open>IOFailure c\<close> any other \<open>OSError\<close>, with text \<open>c\<close>; \<open>Undecodable\<close> is
  \<open>UnicodeDecodeError\<close> (the bytes of the file are not UTF-8 text); \<open>BadJSON\<close> is
  \<open>json.JSONDecodeError\<close> (the text of the file is not JSON); \<open>OtherFailure\<close> is any
  other exception, such as the \<open>ValueError\<close> for a file name with a null character.
\<close>

datatype read_outcome =
  Parsed json | NoSuchFile | BadJSON | IOFailure string | Undecodable | OtherFailure

text \<open>
  The \<open>print\<close> of an \<open>except\<close> clause, followed by \<open>return None\<close>. The message holds
  the file name as it is. \<open>None\<close> is \<open>JNull\<close>.
\<close>

definition report :: "string \<Rightarrow> msg \<Rightarrow> json res \<times> msg list" where
  "report filename m =
     (if lone_surrogate filename then (Inl UnicodeEncodeError, []) else (Inr JNull, [m]))"

text \<open>
  The three \<open>except\<close> clauses are \<open>FileNotFoundError\<close>, \<open>json.JSONDecodeError\<close> and
  \<open>OSError\<close>. \<open>UnicodeDecodeError\<close> is a \<open>ValueError\<close> and none of the three, so it
  leaves the function.
\<close>

definition load_json_file :: "(string \<Rightarrow> read_outcome) \<Rightarrow> string \<Rightarrow> json res \<times> msg list" where
  "load_json_file rd filename =
     (case rd filename of
        Parsed doc \<Rightarrow> (Inr doc, [])
      | NoSuchFile \<Rightarrow> report filename (ErrNotFound filename)
      | BadJSON \<Rightarrow> report filename (ErrInvalidJSON filename)
      | IOFailure c \<Rightarrow> report filename (ErrCannotOpen filename c)
      | Undecodable \<Rightarrow> (Inl UnicodeDecodeError, [])
      | OtherFailure \<Rightarrow> (Inl OtherError, []))"

text \<open>
  \<open>write_results\<close>: \<open>wr\<close> is \<open>None\<close> when the file is written and \<open>Some c\<close> when
  opening or writing raises \<open>OSError\<close> with text \<open>c\<close>, which names the fixed file and
  the operating system's reason. The result is what is printed and the content the
  file received.
\<close>

definition write_results :: "string option \<Rightarrow> msg \<Rightarrow> msg list \<times> msg option" where
  "write_results wr output =
     (case wr of None \<Rightarrow> ([], Some output) | Some c \<Rightarrow> ([ErrWrite c], None))"

record env =
  read_file :: "string \<Rightarrow> read_outcome"
  write_error :: "string option"
  elapsed :: pyfloat
  str_float :: str_parser

text \<open>
  How the process ends: \<open>sys.exit(n)\<close>, falling off the end of \<open>main\<close>, or an
  exception nobody catches, which the interpreter reports with status 1.
\<close>

datatype ending = Exit nat | Returned | Uncaught py_error

fun exit_status :: "ending \<Rightarrow> nat" where
  "exit_status (Exit n) = n"
| "exit_status Returned = 0"
| "exit_status (Uncaught _) = 1"

record run =
  ending :: ending
  printed :: "msg list"
  results_file :: "msg option"

definition main :: "string list \<Rightarrow> env \<Rightarrow> run" where
  "main argv ev =
     (if length argv \<noteq> 3 then \<lparr>ending = Exit 1, printed = [Usage], results_file = None\<rparr>
      else
        case load_json_file (read_file ev) (argv ! 1) of
          (Inl e, o1) \<Rightarrow> \<lparr>ending = Uncaught e, printed = o1, results_file = None\<rparr>
        | (Inr price_data, o1) \<Rightarrow>
        case load_json_file (read_file ev) (argv ! 2) of
          (Inl e, o2) \<Rightarrow> \<lparr>ending = Uncaught e, printed = o1 @ o2, results_file = None\<rparr>
        | (Inr sales_data, o2) \<Rightarrow>
        if price_data = JNull \<or> sales_data = JNull
        then \<lparr>ending = Exit 1, printed = o1 @ o2, results_file = None\<rparr>
        else
        case build_price_dict (str_float ev) price_data of
          (Inl e, o3) \<Rightarrow> \<lparr>ending = Uncaught e, printed = o1 @ o2 @ o3, results_file = None\<rparr>
        | (Inr d, o3) \<Rightarrow>
        case compute_total_sales (str_float ev) sales_data d of
          (Inl e, s) \<Rightarrow>
            \<lparr>ending = Uncaught e, printed = o1 @ o2 @ o3 @ console s, results_file = None\<rparr>
        | (Inr total_sales, s) \<Rightarrow>
            (let output = Summary total_sales (elapsed ev);
                 (o5, written) = write_results (write_error ev) output
             in \<lparr>ending = Returned,
                 printed = o1 @ o2 @ o3 @ console s @ [output] @ o5,
                 results_file = written\<rparr>))"

section \<open>The specification's vocabulary\<close>

text \<open>
  The terms the specification uses for its statements about the aggregator: a
  transaction is a record; its line items are the elements of its \<open>items\<close> field when
  that is a sequence; a line item is valid and resolvable when it has a \<open>product\<close> and a
  \<open>quantity\<close> coercible to float and its product is a key of the price index, and it
  then contributes \<open>price * quantity\<close>.
\<close>

definition is_record :: "json \<Rightarrow> bool" where
  "is_record j = (case j of JObj _ \<Rightarrow> True | _ \<Rightarrow> False)"

definition field :: "json \<Rightarrow> string \<Rightarrow> json option" where
  "field j k = (case j of JObj kvs \<Rightarrow> map_of kvs k | _ \<Rightarrow> None)"

definition line_items :: "json \<Rightarrow> json list" where
  "line_items sale = (case field sale ''items'' of Some (JArr items) \<Rightarrow> items | _ \<Rightarrow> [])"

definition contribution :: "str_parser \<Rightarrow> price_dict \<Rightarrow> json \<Rightarrow> pyfloat option" where
  "contribution P d item =
     (case field item ''product'' of None \<Rightarrow> None | Some product \<Rightarrow>
      case field item ''quantity'' of None \<Rightarrow> None | Some qv \<Rightarrow>
      case py_float P qv of Inl _ \<Rightarrow> None | Inr quantity \<Rightarrow>
      case py_key product of Inl _ \<Rightarrow> None | Inr k \<Rightarrow>
      case d k of None \<Rightarrow> None | Some price \<Rightarrow> Some (fmul price quantity))"

definition contributions :: "str_parser \<Rightarrow> price_dict \<Rightarrow> json list \<Rightarrow> pyfloat list" where
  "contributions P d sales = List.map_filter (contribution P d) (concat (map line_items sales))"

definition big_quantity :: "json \<Rightarrow> bool" where
  "big_quantity item =
     (case field item ''quantity'' of
        Some (JInt i) \<Rightarrow> float_of_int i = Inl OverflowError
      | _ \<Rightarrow> False)"

text \<open>
  The transactions are records, no line item is a \<open>str\<close> that the console refuses and
  no line item's quantity is an integer beyond the range of a float.
\<close>

definition sales_in_domain :: "json list \<Rightarrow> bool" where
  "sales_in_domain sales =
     list_all (\<lambda>sale. is_record sale
         \<and> list_all (\<lambda>item. \<not> refused item \<and> \<not> big_quantity item) (line_items sale))
       sales"

definition add_opt :: "pyfloat \<Rightarrow> pyfloat option \<Rightarrow> pyfloat" where
  "add_opt t c = (case c of None \<Rightarrow> t | Some x \<Rightarrow> fadd t x)"

text \<open>
  For the index builder: a catalogue entry is valid when it has a \<open>product\<close> that
  can be a dict key and a \<open>price\<close> coercible to float; it then stands for that key and
  that price.
\<close>

definition catalogue_entry :: "str_parser \<Rightarrow> json \<Rightarrow> (pykey \<times> pyfloat) option" where
  "catalogue_entry P entry =
     (case field entry ''product'' of None \<Rightarrow> None | Some product \<Rightarrow>
      case field entry ''price'' of None \<Rightarrow> None | Some pv \<Rightarrow>
      case py_float P pv of Inl _ \<Rightarrow> None | Inr price \<Rightarrow>
      case py_key product of Inl _ \<Rightarrow> None | Inr k \<Rightarrow> Some (k, price))"

definition all_valid :: "str_parser \<Rightarrow> json list \<Rightarrow> bool" where
  "all_valid P entries = list_all (\<lambda>entry. catalogue_entry P entry \<noteq> None) entries"

definition entry_keys :: "str_parser \<Rightarrow> json list \<Rightarrow> pykey list" where
  "entry_keys P entries = map fst (List.map_filter (catalogue_entry P) entries)"

text \<open>No valid entry of the list has the key \<open>k\<close>.\<close>

definition no_entry_for :: "str_parser \<Rightarrow> pykey \<Rightarrow> json list \<Rightarrow> bool" where
  "no_entry_for P k entries = list_all (\<lambda>entry. map_option fst (catalogue_entry P entry) \<noteq> Some k) entries"

text \<open>
  For the entry point: a document loads when \<open>load_json_file\<close> returns a value other
  than \<open>None\<close>.
\<close>

definition loads :: "env \<Rightarrow> string \<Rightarrow> bool" where
  "loads ev filename = (case read_file ev filename of Parsed doc \<Rightarrow> doc \<noteq> JNull | _ \<Rightarrow> False)"

text \<open>
  For the order of totals: Python's \<open>0.0 <= x\<close>; the values that are doubles (a finite
  magnitude is below \<open>2^1024\<close> and has at most 53 significant bits, so rounding leaves
  it alone); the value of a float in units of \<open>2^-1074\<close>, an infinity standing at
  \<open>inf_mag\<close> on its side.
\<close>

definition nonneg :: "pyfloat \<Rightarrow> bool" where
  "nonneg x = fle fzero x"

definition is_double :: "pyfloat \<Rightarrow> bool" where
  "is_double x = (case x of Fin _ m \<Rightarrow> m < inf_mag \<and> round_mag 0 m = m | _ \<Rightarrow> True)"

definition ext :: "pyfloat \<Rightarrow> int" where
  "ext x = (case x of NaN \<Rightarrow> 0 | Inf s \<Rightarrow> signed s inf_mag | Fin s m \<Rightarrow> signed s m)"

text \<open>
  The sum \<open>z\<close> of two finite values, rounded: to the nearest double, and to an
  infinity (\<open>inf_mag\<close>) beyond the largest one.
\<close>

definition round_int :: "int \<Rightarrow> int" where
  "round_int z =
     (if z < 0 then - int (min inf_mag (round_mag 0 (nat (- z))))
      else int (min inf_mag (round_mag 0 (nat z))))"

text \<open>
  Whether the significand \<open>q\<close> is rounded up, given the \<open>sh\<close> bits \<open>r\<close> that are cut
  off: above the half, or at the half with \<open>q\<close> odd.
\<close>

definition round_up :: "nat \<Rightarrow> nat \<Rightarrow> nat \<Rightarrow> bool" where
  "round_up sh q r = (sh \<noteq> 0 \<and> (2 ^ (sh - 1) < r \<or> (r = 2 ^ (sh - 1) \<and> odd q)))"

text \<open>The well-formed input of the specification's scenarios.\<close>

definition line_item :: "string \<Rightarrow> int \<Rightarrow> json" where
  "line_item product quantity = JObj [(''product'', JStr product), (''quantity'', JInt quantity)]"

definition transaction :: "json list \<Rightarrow> json" where
  "transaction items = JObj [(''items'', JArr items)]"

section \<open>Properties\<close>

subsection \<open>Rounding of magnitudes that need no rounding\<close>

lemma bit_length_pos: "0 < n \<Longrightarrow> bit_length n = Suc (bit_length (n div 2))"
  by (subst bit_length.simps) simp

lemma bit_length_0 [simp]: "bit_length 0 = 0"
  by (subst bit_length.simps) simp

lemma bit_length_less: "n < 2 ^ bit_length n"
proof (induction n rule: bit_length.induct)
  case (1 n)
  show ?case
  proof (cases "n = 0")
    case True
    then show ?thesis by simp
  next
    case False
    with 1 have "n div 2 < 2 ^ bit_length (n div 2)" by simp
    then have "n < 2 * 2 ^ bit_length (n div 2)" by linarith
    with False show ?thesis by (simp add: bit_length_pos)
  qed
qed

lemma bit_length_ge: "0 < n \<Longrightarrow> 2 ^ (bit_length n - 1) \<le> n"
proof (induction n rule: bit_length.induct)
  case (1 n)
  show ?case
  proof (cases "n div 2 = 0")
    case True
    with 1 show ?thesis by (simp add: bit_length_pos)
  next
    case False
    with 1 have "2 ^ (bit_length (n div 2) - 1) \<le> n div 2" by simp
    moreover from False have "bit_length (n div 2) = Suc (bit_length (n div 2) - 1)"
      by (simp add: bit_length_pos)
    ultimately have "2 ^ bit_length (n div 2) \<le> 2 * (n div 2)"
      by (metis power_Suc mult_le_mono2)
    also have "\<dots> \<le> n" by simp
    finally show ?thesis using 1 by (simp add: bit_length_pos)
  qed
qed

lemma bit_length_eq:
  assumes "2 ^ k \<le> n" and "n < 2 ^ Suc k"
  shows "bit_length n = Suc k"
proof -
  from assms have pos: "0 < n" by (metis less_le_trans zero_less_numeral zero_less_power)
  have "(2::nat) ^ k < 2 ^ bit_length n"
    using assms(1) bit_length_less[of n] by (rule le_less_trans)
  then have "k < bit_length n" by (simp add: power_strict_increasing_iff)
  moreover have "(2::nat) ^ (bit_length n - 1) < 2 ^ Suc k"
    using bit_length_ge[OF pos] assms(2) by (rule le_less_trans)
  then have "bit_length n - 1 < Suc k" by (simp only: power_strict_increasing_iff one_less_numeral_iff semiring_norm)
  ultimately show ?thesis by simp
qed

lemma bit_length_le:
  assumes "n < 2 ^ k"
  shows "bit_length n \<le> k"
proof (cases "n = 0")
  case False
  then have "2 ^ (bit_length n - 1) \<le> n" using bit_length_ge[of n] by blast
  from this assms have "(2::nat) ^ (bit_length n - 1) < 2 ^ k" by (rule le_less_trans)
  then have "bit_length n - 1 < k"
    by (simp only: power_strict_increasing_iff one_less_numeral_iff semiring_norm)
  then show ?thesis by simp
qed simp

lemma round_mag_exact:
  assumes "q < 2 ^ 53"
  shows "round_mag u (q * 2 ^ (u + e)) = q * 2 ^ e"
proof -
  define N where "N = q * 2 ^ (u + e)"
  define sh where "sh = max u (bit_length N - 53)"
  have "N < 2 ^ 53 * 2 ^ (u + e)"
    unfolding N_def using assms by simp
  then have "N < 2 ^ (53 + (u + e))" by (simp only: power_add)
  then have "bit_length N \<le> 53 + (u + e)" by (rule bit_length_le)
  then have sh: "u \<le> sh" "sh \<le> u + e" by (simp_all add: sh_def)
  then have N: "N = q * 2 ^ (u + e - sh) * 2 ^ sh"
    unfolding N_def by (simp add: mult.assoc flip: power_add)
  have d: "N div 2 ^ sh = q * 2 ^ (u + e - sh)" and m: "N mod 2 ^ sh = 0"
    by (subst N, simp)+
  have "round_mag u N = q * 2 ^ (u + e - sh) * 2 ^ (sh - u)"
    unfolding round_mag_def Let_def sh_def[symmetric] d m by simp
  also have "\<dots> = q * 2 ^ e"
    using sh by (simp add: mult.assoc flip: power_add)
  finally show ?thesis by (simp add: N_def)
qed

lemma small_less_inf: "q < 2 ^ 53 \<Longrightarrow> q * one_mag < inf_mag"
proof -
  assume "q < 2 ^ 53"
  then have "q * 2 ^ 1074 < 2 ^ 53 * 2 ^ 1074" by (simp only: mult_less_cancel2) simp
  also have "\<dots> = (2::nat) ^ (53 + 1074)" by (rule power_add[symmetric])
  also have "\<dots> < (2::nat) ^ 2098" by (rule power_strict_increasing) simp_all
  finally show ?thesis by (simp only: one_mag_def inf_mag_def)
qed

lemma round_mag_small_add: "q < 2 ^ 53 \<Longrightarrow> round_mag 0 (q * one_mag) = q * one_mag"
  using round_mag_exact[of q 0 1074] by (simp only: one_mag_def add_0)

lemma round_mag_small_mul:
  "a * b < 2 ^ 53 \<Longrightarrow> round_mag 1074 (a * one_mag * (b * one_mag)) = a * b * one_mag"
proof -
  assume "a * b < 2 ^ 53"
  from round_mag_exact[OF this, of 1074 1074]
  have "round_mag 1074 (a * b * (2 ^ 1074 * 2 ^ 1074)) = a * b * 2 ^ 1074"
    by (simp only: power_add)
  moreover have "a * one_mag * (b * one_mag) = a * b * (one_mag * one_mag)"
    by (simp only: mult_ac)
  ultimately show ?thesis by (simp only: one_mag_def)
qed

lemma fmul_small:
  assumes "a * b < 2 ^ 53"
  shows "fmul (Fin s (a * one_mag)) (Fin t (b * one_mag)) = Fin (s \<noteq> t) (a * b * one_mag)"
  using small_less_inf[OF assms] round_mag_small_mul[OF assms]
  by (simp add: mk_float_def)

lemma float_of_int_small:
  assumes "\<bar>i\<bar> < 2 ^ 53"
  shows "float_of_int i = Inr (Fin (i < 0) (nat \<bar>i\<bar> * one_mag))"
proof -
  from assms have q: "nat \<bar>i\<bar> < 2 ^ 53" by (simp add: nat_less_iff)
  from small_less_inf[OF q] round_mag_small_add[OF q] show ?thesis
    by (simp add: float_of_int_def)
qed

lemma fadd_small:
  assumes "a + b < 2 ^ 53"
  shows "fadd (Fin False (a * one_mag)) (Fin False (b * one_mag)) = Fin False ((a + b) * one_mag)"
proof (cases "a + b = 0")
  case True
  then show ?thesis by (simp add: signed_def)
next
  case False
  have s: "signed False (a * one_mag) + signed False (b * one_mag) = int ((a + b) * one_mag)"
    by (simp add: signed_def algebra_simps)
  from False have "(a + b) * one_mag \<noteq> 0" by (simp add: one_mag_def)
  then have nz: "int ((a + b) * one_mag) \<noteq> 0" by (simp only: of_nat_eq_0_iff not_False_eq_True)
  have neg: "\<not> int ((a + b) * one_mag) < 0" by (simp only: of_nat_less_0_iff not_False_eq_True)
  have n: "nat \<bar>int ((a + b) * one_mag)\<bar> = (a + b) * one_mag" by (simp only: abs_of_nat nat_int)
  show ?thesis
    unfolding fadd.simps s Let_def n
    using nz neg small_less_inf[OF assms] round_mag_small_add[OF assms]
    by (simp add: mk_float_def del: of_nat_mult of_nat_add)
qed

lemma fadd_small_sub:
  assumes "b \<le> a" and "a - b < 2 ^ 53"
  shows "fadd (Fin False (a * one_mag)) (Fin True (b * one_mag)) = Fin False ((a - b) * one_mag)"
proof (cases "a = b")
  case True
  then show ?thesis by (simp add: signed_def)
next
  case False
  with assms(1) have pos: "0 < (a - b) * one_mag" by (simp add: one_mag_def)
  have s: "signed False (a * one_mag) + signed True (b * one_mag) = int ((a - b) * one_mag)"
    using assms(1) by (simp add: signed_def diff_mult_distrib of_nat_diff)
  from pos have "int ((a - b) * one_mag) \<noteq> 0" "\<not> int ((a - b) * one_mag) < 0"
    "nat \<bar>int ((a - b) * one_mag)\<bar> = (a - b) * one_mag"
    by (simp_all only: of_nat_eq_0_iff of_nat_less_0_iff abs_of_nat nat_int not_False_eq_True)
  then have "fadd (Fin False (a * one_mag)) (Fin True (b * one_mag))
      = mk_float False (round_mag 0 ((a - b) * one_mag))"
    unfolding fadd.simps s Let_def by (simp only: if_False)
  with small_less_inf[OF assms(2)] round_mag_small_add[OF assms(2)] show ?thesis
    by (simp add: mk_float_def)
qed

subsection \<open>Rounding is monotone and idempotent\<close>

lemma bit_length_mono: "m \<le> n \<Longrightarrow> bit_length m \<le> bit_length n"
  using bit_length_less[of n] by (intro bit_length_le) simp

lemma round_mag_0_small: "bit_length N \<le> 53 \<Longrightarrow> round_mag 0 N = N"
  by (simp add: round_mag_def)

lemma round_mag_normal:
  assumes N: "N = q * 2 ^ sh + r" and r: "r < 2 ^ sh" and q: "2 ^ 52 \<le> q" "q < 2 ^ 53"
    and u: "u \<le> sh"
  shows "round_mag u N = (if round_up sh q r then q + 1 else q) * 2 ^ (sh - u)"
proof -
  have "2 ^ 52 * 2 ^ sh \<le> q * 2 ^ sh" using q(1) by simp
  also have "\<dots> \<le> N" using N by simp
  finally have lo: "2 ^ (52 + sh) \<le> N" by (simp only: power_add)
  have "N < q * 2 ^ sh + 2 ^ sh" using N r by simp
  also have "\<dots> = (q + 1) * 2 ^ sh" by simp
  also have "\<dots> \<le> 2 ^ 53 * 2 ^ sh" using q(2) by (intro mult_le_mono1) simp
  finally have hi: "N < 2 ^ Suc (52 + sh)" by (simp add: power_add)
  from lo hi have "bit_length N = Suc (52 + sh)" by (rule bit_length_eq)
  then have sh: "max u (bit_length N - 53) = sh" using u by simp
  have d: "N div 2 ^ sh = q" and m: "N mod 2 ^ sh = r"
    using N r by simp_all
  show ?thesis
    unfolding round_mag_def Let_def sh d m by (simp add: round_up_def)
qed

lemma big_decompose:
  assumes "53 < bit_length N"
  defines "sh \<equiv> bit_length N - 53"
  shows "2 ^ 52 \<le> N div 2 ^ sh" and "N div 2 ^ sh < 2 ^ 53"
    and "2 ^ 53 * 2 ^ sh = (2::nat) ^ bit_length N"
    and "2 ^ 52 * 2 ^ sh = (2::nat) ^ (bit_length N - 1)"
proof -
  from assms have pos: "0 < N" by (cases "N = 0") simp_all
  have bl: "bit_length N = 53 + sh" and bl1: "bit_length N - 1 = 52 + sh"
    using assms by simp_all
  show p53: "2 ^ 53 * 2 ^ sh = (2::nat) ^ bit_length N"
    unfolding bl by (rule power_add[symmetric])
  show p52: "2 ^ 52 * 2 ^ sh = (2::nat) ^ (bit_length N - 1)"
    unfolding bl1 by (rule power_add[symmetric])
  have "2 ^ 52 * 2 ^ sh \<le> N"
    unfolding p52 using pos by (rule bit_length_ge)
  then have "2 ^ 52 * 2 ^ sh div 2 ^ sh \<le> N div 2 ^ sh" by (rule div_le_mono)
  moreover have "(2::nat) ^ 52 * 2 ^ sh div 2 ^ sh = 2 ^ 52"
    by (rule nonzero_mult_div_cancel_right) simp
  ultimately show "2 ^ 52 \<le> N div 2 ^ sh" by (simp only:)
  have "N < 2 ^ 53 * 2 ^ sh"
    unfolding p53 by (rule bit_length_less)
  then show "N div 2 ^ sh < 2 ^ 53"
    by (rule less_mult_imp_div_less)
qed

lemma round_mag_0_big:
  assumes "53 < bit_length N"
  defines "sh \<equiv> bit_length N - 53"
  shows "round_mag 0 N =
    (if round_up sh (N div 2 ^ sh) (N mod 2 ^ sh) then N div 2 ^ sh + 1 else N div 2 ^ sh) * 2 ^ sh"
proof -
  have 1: "N = N div 2 ^ sh * 2 ^ sh + N mod 2 ^ sh" by (rule div_mult_mod_eq[symmetric])
  have 2: "N mod 2 ^ sh < 2 ^ sh" by simp
  have 3: "2 ^ 52 \<le> N div 2 ^ sh" and 4: "N div 2 ^ sh < 2 ^ 53"
    using big_decompose(1,2)[OF assms(1)] unfolding sh_def by blast+
  have "round_mag 0 N =
    (if round_up sh (N div 2 ^ sh) (N mod 2 ^ sh) then N div 2 ^ sh + 1 else N div 2 ^ sh) * 2 ^ (sh - 0)"
    using 1 2 3 4 by (rule round_mag_normal) simp
  then show ?thesis by (simp only: diff_zero)
qed

lemma round_mag_0_between:
  assumes "53 < bit_length N"
  shows "2 ^ (bit_length N - 1) \<le> round_mag 0 N" and "round_mag 0 N \<le> 2 ^ bit_length N"
proof -
  define sh where "sh = bit_length N - 53"
  define q where "q = N div 2 ^ sh"
  define c where "c = (if round_up sh q (N mod 2 ^ sh) then q + 1 else q)"
  have rm: "round_mag 0 N = c * 2 ^ sh"
    using round_mag_0_big[OF assms] by (simp only: sh_def q_def c_def)
  have q: "2 ^ 52 \<le> q" "q < 2 ^ 53"
    using big_decompose(1,2)[OF assms] by (simp_all only: sh_def q_def)
  then have c: "2 ^ 52 \<le> c" "c \<le> 2 ^ 53" by (simp_all add: c_def)
  have "2 ^ 52 * 2 ^ sh \<le> c * 2 ^ sh" using c(1) by (rule mult_le_mono1)
  then show "2 ^ (bit_length N - 1) \<le> round_mag 0 N"
    using big_decompose(4)[OF assms] by (simp only: rm sh_def)
  have "c * 2 ^ sh \<le> 2 ^ 53 * 2 ^ sh" using c(2) by (rule mult_le_mono1)
  then show "round_mag 0 N \<le> 2 ^ bit_length N"
    using big_decompose(3)[OF assms] by (simp only: rm sh_def)
qed

lemma round_mag_0_upper: "round_mag 0 N \<le> 2 ^ bit_length N"
proof (cases "53 < bit_length N")
  case False
  then show ?thesis using bit_length_less[of N] by (simp add: round_mag_0_small)
next
  case True
  then show ?thesis by (rule round_mag_0_between)
qed

lemma round_mag_0_lower: "0 < N \<Longrightarrow> 2 ^ (bit_length N - 1) \<le> round_mag 0 N"
proof (cases "53 < bit_length N")
  case False
  assume "0 < N"
  with False show ?thesis using bit_length_ge[of N] by (simp add: round_mag_0_small)
next
  case True
  then show ?thesis by (rule round_mag_0_between)
qed

lemma round_mag_0_mono_same:
  assumes "bit_length M = bit_length N" and "M \<le> N"
  shows "round_mag 0 M \<le> round_mag 0 N"
proof (cases "53 < bit_length N")
  case False
  with assms show ?thesis by (simp add: round_mag_0_small)
next
  case True
  define sh where "sh = bit_length N - 53"
  define q r q' r' where "q = M div 2 ^ sh" and "r = M mod 2 ^ sh"
    and "q' = N div 2 ^ sh" and "r' = N mod 2 ^ sh"
  have M: "round_mag 0 M = (if round_up sh q r then q + 1 else q) * 2 ^ sh"
    using round_mag_0_big[of M] True assms(1) by (simp add: sh_def q_def r_def)
  have N: "round_mag 0 N = (if round_up sh q' r' then q' + 1 else q') * 2 ^ sh"
    using round_mag_0_big[OF True] by (simp add: sh_def q'_def r'_def)
  have qq: "q \<le> q'" unfolding q_def q'_def using assms(2) by (rule div_le_mono)
  show ?thesis
  proof (cases "q = q'")
    case False
    with qq have "q + 1 \<le> q'" by simp
    then have "(if round_up sh q r then q + 1 else q) \<le> (if round_up sh q' r' then q' + 1 else q')"
      by simp
    then show ?thesis unfolding M N by (rule mult_le_mono1)
  next
    case True
    have "M = q * 2 ^ sh + r" "N = q' * 2 ^ sh + r'"
      unfolding q_def r_def q'_def r'_def by (rule div_mult_mod_eq[symmetric])+
    with assms(2) True have "r \<le> r'" by simp
    then have "round_up sh q r \<Longrightarrow> round_up sh q' r'"
      using True by (auto simp: round_up_def)
    then have "(if round_up sh q r then q + 1 else q) \<le> (if round_up sh q' r' then q' + 1 else q')"
      using True by simp
    then show ?thesis unfolding M N by (rule mult_le_mono1)
  qed
qed

lemma round_mag_0_mono:
  assumes "M \<le> N"
  shows "round_mag 0 M \<le> round_mag 0 N"
proof (cases "bit_length M = bit_length N")
  case True
  from True assms show ?thesis by (rule round_mag_0_mono_same)
next
  case False
  with bit_length_mono[OF assms] have lt: "bit_length M \<le> bit_length N - 1" by simp
  then have pos: "0 < N" by (cases "N = 0") (use False in auto)
  have "round_mag 0 M \<le> 2 ^ bit_length M" by (rule round_mag_0_upper)
  also have "\<dots> \<le> 2 ^ (bit_length N - 1)" using lt by (rule power_increasing) simp
  also have "\<dots> \<le> round_mag 0 N" using pos by (rule round_mag_0_lower)
  finally show ?thesis .
qed

lemma round_mag_form: "\<exists>c e. round_mag u N = c * 2 ^ e \<and> c \<le> 2 ^ 53"
proof -
  define sh where "sh = max u (bit_length N - 53)"
  define q where "q = N div 2 ^ sh"
  define c where "c = (if sh = 0 then q
      else if 2 ^ (sh - 1) < N mod 2 ^ sh \<or> (N mod 2 ^ sh = 2 ^ (sh - 1) \<and> odd q) then q + 1 else q)"
  have rm: "round_mag u N = c * 2 ^ (sh - u)"
    by (simp only: round_mag_def Let_def sh_def q_def c_def)
  have "bit_length N \<le> 53 + sh" by (simp add: sh_def)
  then have "(2::nat) ^ bit_length N \<le> 2 ^ (53 + sh)" by (rule power_increasing) simp
  with bit_length_less[of N] have "N < 2 ^ (53 + sh)" by (rule less_le_trans)
  then have "N < 2 ^ 53 * 2 ^ sh" by (simp only: power_add)
  then have "q < 2 ^ 53" unfolding q_def by (rule less_mult_imp_div_less)
  then have "c \<le> 2 ^ 53" by (simp add: c_def)
  with rm show ?thesis by blast
qed

lemma round_mag_0_fixed: 
  assumes "c \<le> 2 ^ 53"
  shows "round_mag 0 (c * 2 ^ e) = c * 2 ^ e"
proof (cases "c = 2 ^ 53")
  case False
  with assms have "c < 2 ^ 53" by simp
  from round_mag_exact[OF this, of 0 e] show ?thesis by simp
next
  case True
  have "(2::nat) ^ 52 < 2 ^ 53" by simp
  from round_mag_exact[OF this, of 0 "Suc e"]
  have "round_mag 0 (2 ^ 52 * 2 ^ Suc e) = 2 ^ 52 * 2 ^ Suc e" by (simp only: add_0)
  moreover have "(2::nat) ^ 52 * 2 ^ Suc e = 2 ^ 53 * 2 ^ e" by simp
  ultimately show ?thesis using True by (simp only:)
qed

lemma round_mag_idem: "round_mag 0 (round_mag u N) = round_mag u N"
proof -
  from round_mag_form[of u N] obtain c e where "round_mag u N = c * 2 ^ e" "c \<le> 2 ^ 53"
    by blast
  then show ?thesis by (simp only: round_mag_0_fixed)
qed

lemma round_mag_0_zero: "round_mag 0 0 = 0"
  by (simp add: round_mag_def)

lemma round_mag_0_inf: "round_mag 0 inf_mag = inf_mag"
  using round_mag_0_fixed[of 1 2098] by (simp add: inf_mag_def)

lemma mk_float_is_double: "is_double (mk_float s (round_mag u N))"
  by (simp add: mk_float_def is_double_def round_mag_idem)

lemma fmul_is_double: "is_double (fmul x y)"
proof (cases x)
  case NaN
  then show ?thesis by (simp add: is_double_def)
next
  case (Inf a)
  then show ?thesis by (cases y) (simp_all add: is_double_def)
next
  case (Fin a m)
  then show ?thesis by (cases y) (simp_all add: mk_float_is_double, simp_all add: is_double_def)
qed

lemma nonneg_iff:
  "nonneg x \<longleftrightarrow> (case x of NaN \<Rightarrow> False | Inf s \<Rightarrow> \<not> s | Fin s m \<Rightarrow> \<not> s \<or> m = 0)"
  by (cases x) (auto simp: nonneg_def fzero_def signed_def)

lemma inf_mag_pos: "0 < inf_mag"
  by (simp add: inf_mag_def)

lemma fle_ext:
  assumes "is_double a" "is_double b" "a \<noteq> NaN" "b \<noteq> NaN"
  shows "fle a b \<longleftrightarrow> ext a \<le> ext b"
proof (cases a)
  case NaN
  with assms show ?thesis by simp
next
  case (Inf s)
  with assms inf_mag_pos show ?thesis
    by (cases b) (auto simp: ext_def is_double_def signed_def)
next
  case (Fin s m)
  with assms inf_mag_pos show ?thesis
    by (cases b) (auto simp: ext_def is_double_def signed_def)
qed

lemma round_int_mono:
  assumes "z \<le> z'"
  shows "round_int z \<le> round_int z'"
proof -
  consider "0 \<le> z" | "z' < 0" | "z < 0" "0 \<le> z'" by linarith
  then show ?thesis
  proof cases
    case 1
    with assms have "nat z \<le> nat z'" by simp
    then have "round_mag 0 (nat z) \<le> round_mag 0 (nat z')" by (rule round_mag_0_mono)
    then have "min inf_mag (round_mag 0 (nat z)) \<le> min inf_mag (round_mag 0 (nat z'))"
      by (simp add: min_def)
    with 1 assms show ?thesis by (simp add: round_int_def)
  next
    case 2
    with assms have "nat (- z') \<le> nat (- z)" by simp
    then have "round_mag 0 (nat (- z')) \<le> round_mag 0 (nat (- z))" by (rule round_mag_0_mono)
    then have "min inf_mag (round_mag 0 (nat (- z'))) \<le> min inf_mag (round_mag 0 (nat (- z)))"
      by (simp add: min_def)
    with 2 assms show ?thesis by (simp add: round_int_def)
  next
    case 3
    then have "round_int z \<le> 0" "0 \<le> round_int z'" by (simp_all add: round_int_def)
    then show ?thesis by simp
  qed
qed

lemma round_int_fixed:
  assumes "is_double (Fin s m)"
  shows "round_int (signed s m) = signed s m"
proof -
  from assms have "min inf_mag (round_mag 0 m) = m" by (simp add: is_double_def)
  then show ?thesis by (auto simp: round_int_def signed_def round_mag_0_zero)
qed

lemma fadd_Fin:
  "fadd (Fin a m) (Fin b n) \<noteq> NaN"
  "ext (fadd (Fin a m) (Fin b n)) = round_int (signed a m + signed b n)"
proof -
  define z where "z = signed a m + signed b n"
  have eq: "fadd (Fin a m) (Fin b n) =
      (if z = 0 then Fin (a \<and> b) 0 else mk_float (z < 0) (round_mag 0 (nat \<bar>z\<bar>)))"
    by (simp add: z_def Let_def)
  have "fadd (Fin a m) (Fin b n) \<noteq> NaN \<and> ext (fadd (Fin a m) (Fin b n)) = round_int z"
  proof (cases "z = 0")
    case True
    then show ?thesis
      unfolding eq by (simp add: ext_def signed_def round_int_def round_mag_0_zero)
  next
    case False
    have n: "nat \<bar>z\<bar> = (if z < 0 then nat (- z) else nat z)" by simp
    from False show ?thesis
      unfolding eq n by (simp add: mk_float_def ext_def signed_def round_int_def min_def)
  qed
  then show "fadd (Fin a m) (Fin b n) \<noteq> NaN"
    and "ext (fadd (Fin a m) (Fin b n)) = round_int (signed a m + signed b n)"
    by (simp_all add: z_def)
qed

lemma fadd_is_double: "is_double (fadd a c)"
proof (cases a)
  case NaN
  then show ?thesis by (simp add: is_double_def)
next
  case (Inf s)
  then show ?thesis by (cases c) (simp_all add: is_double_def)
next
  case (Fin s m)
  then show ?thesis
    by (cases c)
       (simp_all add: Let_def mk_float_is_double, simp_all add: is_double_def round_mag_0_zero
          inf_mag_def)
qed

lemma fle_below: "x \<noteq> NaN \<Longrightarrow> fle (Inf True) x"
  by (cases x) simp_all

lemma fle_above: "x \<noteq> NaN \<Longrightarrow> fle x (Inf False)"
  by (cases x) simp_all

lemma fle_not_NaN: "fle a b \<Longrightarrow> a \<noteq> NaN \<and> b \<noteq> NaN"
  by (cases a; cases b) simp_all

lemma fadd_mono_left:
  assumes "is_double a" "is_double b" "fle a b"
    and "fadd a c \<noteq> NaN" "fadd b c \<noteq> NaN"
  shows "fle (fadd a c) (fadd b c)"
proof (cases c)
  case NaN
  with assms(4) show ?thesis by (cases a) simp_all
next
  case (Inf sc)
  have "fadd y (Inf sc) \<noteq> NaN \<Longrightarrow> fadd y (Inf sc) = Inf sc" for y
    by (cases y) (simp_all split: if_splits)
  with assms(4,5) have "fadd a c = Inf sc" "fadd b c = Inf sc"
    unfolding Inf by blast+
  then show ?thesis by simp
next
  case c: (Fin sc mc)
  show ?thesis
  proof (cases a)
    case NaN
    with assms(3) show ?thesis by simp
  next
    case a: (Inf sa)
    show ?thesis
    proof (cases sa)
      case True
      with a c assms(5) show ?thesis by (simp add: fle_below)
    next
      case False
      with a assms(3) have "b = Inf False" by (cases b) simp_all
      with a c False show ?thesis by simp
    qed
  next
    case a: (Fin sa ma)
    show ?thesis
    proof (cases b)
      case NaN
      with assms(3) a show ?thesis by simp
    next
      case (Inf sb)
      with a assms(3) have "b = Inf False" by simp
      with c assms(4) show ?thesis by (simp add: fle_above)
    next
      case b: (Fin sb mb)
      from a b assms(3) have "signed sa ma + signed sc mc \<le> signed sb mb + signed sc mc"
        by simp
      then have "ext (fadd a c) \<le> ext (fadd b c)"
        unfolding a b c fadd_Fin(2) by (rule round_int_mono)
      with assms(4,5) show ?thesis by (simp add: fle_ext fadd_is_double)
    qed
  qed
qed

lemma fadd_nonneg_increases:
  assumes "is_double a" "nonneg x" "fadd a x \<noteq> NaN"
  shows "fle a (fadd a x)"
proof (cases a)
  case NaN
  with assms(3) show ?thesis by simp
next
  case a: (Inf sa)
  with assms(2,3) show ?thesis by (cases x) (auto simp: nonneg_iff split: if_splits)
next
  case a: (Fin sa ma)
  show ?thesis
  proof (cases x)
    case NaN
    with assms(2) show ?thesis by (simp add: nonneg_iff)
  next
    case (Inf sx)
    with assms(2) a show ?thesis by (simp add: nonneg_iff)
  next
    case x: (Fin sx mx)
    with assms(2) have "0 \<le> signed sx mx" by (auto simp: nonneg_iff signed_def)
    then have "round_int (signed sa ma) \<le> round_int (signed sa ma + signed sx mx)"
      by (intro round_int_mono) simp
    with assms(1) have "ext a \<le> ext (fadd a x)"
      unfolding a x fadd_Fin(2) by (simp add: round_int_fixed ext_def)
    with assms(1,3) a show ?thesis by (simp add: fle_ext fadd_is_double)
  qed
qed

lemma foldl_fadd_NaN: "foldl fadd NaN xs = NaN"
  by (induction xs) simp_all

lemma foldl_fadd_is_double: "is_double a \<Longrightarrow> is_double (foldl fadd a xs)"
  by (induction xs arbitrary: a) (simp_all add: fadd_is_double)

lemma foldl_fadd_mono_left:
  "is_double a \<Longrightarrow> is_double b \<Longrightarrow> fle a b \<Longrightarrow>
   foldl fadd a xs \<noteq> NaN \<Longrightarrow> foldl fadd b xs \<noteq> NaN \<Longrightarrow>
   fle (foldl fadd a xs) (foldl fadd b xs)"
proof (induction xs arbitrary: a b)
  case Nil
  then show ?case by simp
next
  case (Cons x xs)
  from Cons.prems(4,5) have n: "fadd a x \<noteq> NaN" "fadd b x \<noteq> NaN"
    by (auto simp: foldl_fadd_NaN)
  with Cons.prems have "fle (fadd a x) (fadd b x)" by (intro fadd_mono_left)
  with Cons.IH[of "fadd a x" "fadd b x"] Cons.prems(4,5) show ?case
    by (simp add: fadd_is_double)
qed

lemma insert_nonneg:
  assumes "nonneg x"
    and "foldl fadd fzero (A @ B) \<noteq> NaN" and "foldl fadd fzero (A @ x # B) \<noteq> NaN"
  shows "fle (foldl fadd fzero (A @ B)) (foldl fadd fzero (A @ x # B))"
proof -
  define a where "a = foldl fadd fzero A"
  have "is_double fzero" by (simp add: is_double_def fzero_def round_mag_0_zero inf_mag_def)
  then have a: "is_double a" unfolding a_def by (rule foldl_fadd_is_double)
  from assms(3) have n: "fadd a x \<noteq> NaN" by (auto simp: a_def foldl_fadd_NaN)
  with a assms(1) have "fle a (fadd a x)" by (intro fadd_nonneg_increases)
  with a assms(2,3) have "fle (foldl fadd a B) (foldl fadd (fadd a x) B)"
    by (intro foldl_fadd_mono_left) (simp_all add: a_def fadd_is_double)
  then show ?thesis by (simp add: a_def)
qed

lemma fadd_pos:
  assumes "0 < m + n"
  shows "fadd (Fin False m) (Fin False n) = mk_float False (round_mag 0 (m + n))"
proof -
  have s: "signed False m + signed False n = int (m + n)" by (simp add: signed_def)
  from assms have "int (m + n) \<noteq> 0" "\<not> int (m + n) < 0" "nat \<bar>int (m + n)\<bar> = m + n"
    by (simp_all only: of_nat_eq_0_iff of_nat_less_0_iff abs_of_nat nat_int not_False_eq_True)
  then show ?thesis unfolding fadd.simps s Let_def by (simp only: if_False)
qed

lemma fadd_zero_left:
  assumes "is_double (Fin False m)"
  shows "fadd fzero (Fin False m) = Fin False m"
proof (cases "m = 0")
  case True
  then show ?thesis by (simp add: fzero_def signed_def)
next
  case False
  then have "fadd (Fin False 0) (Fin False m) = mk_float False (round_mag 0 (0 + m))"
    by (intro fadd_pos) simp
  with assms show ?thesis by (simp add: fzero_def is_double_def mk_float_def)
qed

lemma round_mag_times_one:
  assumes "round_mag 0 m = m"
  shows "round_mag 1074 (m * one_mag) = m"
proof -
  from round_mag_form[of 0 m] assms obtain c e where m: "m = c * 2 ^ e" and c: "c \<le> 2 ^ 53"
    by auto
  show ?thesis
  proof (cases "c = 2 ^ 53")
    case False
    with c have "c < 2 ^ 53" by simp
    from round_mag_exact[OF this, of 1074 e] show ?thesis
      by (simp add: m one_mag_def power_add mult_ac)
  next
    case True
    have "(2::nat) ^ 52 < 2 ^ 53" by simp
    from round_mag_exact[OF this, of 1074 "Suc e"]
    have "round_mag 1074 (2 ^ 52 * 2 ^ (1074 + Suc e)) = 2 ^ 52 * 2 ^ Suc e" .
    moreover have "m * one_mag = 2 ^ 52 * 2 ^ (1074 + Suc e)"
      unfolding m True one_mag_def power_add by simp
    moreover have "m = 2 ^ 52 * 2 ^ Suc e"
      unfolding m True by simp
    ultimately show ?thesis by (simp only:)
  qed
qed

lemma fmul_one_left:
  assumes "is_double (Fin s m)"
  shows "fmul fone (Fin s m) = Fin s m"
proof -
  from assms have "round_mag 1074 (one_mag * m) = m"
    using round_mag_times_one[of m] by (simp add: is_double_def mult.commute)
  with assms show ?thesis by (simp add: fone_def mk_float_def is_double_def)
qed

lemma is_double_int: "c \<le> 2 ^ 53 \<Longrightarrow> is_double (Fin s (c * one_mag))"
proof -
  assume c: "c \<le> 2 ^ 53"
  then have "c * 2 ^ 1074 \<le> 2 ^ 53 * 2 ^ 1074" by (rule mult_le_mono1)
  also have "\<dots> = (2::nat) ^ (53 + 1074)" by (rule power_add[symmetric])
  also have "\<dots> < (2::nat) ^ 2098" by (rule power_strict_increasing) simp_all
  finally have "c * one_mag < inf_mag" by (simp only: one_mag_def inf_mag_def)
  moreover have "round_mag 0 (c * one_mag) = c * one_mag"
    unfolding one_mag_def using c by (rule round_mag_0_fixed)
  ultimately show ?thesis by (simp add: is_double_def)
qed

lemma float_of_int_exact:
  assumes "\<bar>i\<bar> \<le> 2 ^ 53"
  shows "float_of_int i = Inr (Fin (i < 0) (nat \<bar>i\<bar> * one_mag))"
proof -
  from assms have "nat \<bar>i\<bar> \<le> 2 ^ 53" by (simp add: nat_le_iff)
  from is_double_int[OF this, of False] show ?thesis
    by (simp add: float_of_int_def is_double_def)
qed

lemma fadd_int:
  assumes "c \<le> 2 ^ 53" and "a + b = c"
  shows "fadd (Fin False (a * one_mag)) (Fin False (b * one_mag)) = Fin False (c * one_mag)"
proof (cases "c = 0")
  case True
  with assms show ?thesis by (simp add: signed_def)
next
  case False
  with assms have "0 < a * one_mag + b * one_mag" by (auto simp: one_mag_def)
  then have "fadd (Fin False (a * one_mag)) (Fin False (b * one_mag))
      = mk_float False (round_mag 0 (a * one_mag + b * one_mag))" by (rule fadd_pos)
  moreover have "a * one_mag + b * one_mag = c * one_mag"
    using assms(2) by (simp flip: add_mult_distrib)
  ultimately show ?thesis using is_double_int[OF assms(1), of False]
    by (simp add: mk_float_def is_double_def)
qed

lemma fadd_tie:
  "fadd (Fin False (9007199254740992 * one_mag)) (Fin False (1 * one_mag))
     = Fin False (9007199254740992 * one_mag)"
proof -
  have "round_mag 0 (9007199254740992 * one_mag + 1 * one_mag)
      = (if round_up 1075 (2 ^ 52) (2 ^ 1074) then 2 ^ 52 + 1 else 2 ^ 52) * 2 ^ (1075 - 0)"
    by (rule round_mag_normal) (simp_all add: one_mag_def)
  also have "\<dots> = 9007199254740992 * one_mag"
    by (simp add: round_up_def one_mag_def)
  finally have "round_mag 0 (9007199254740992 * one_mag + 1 * one_mag) = 9007199254740992 * one_mag" .
  moreover have "fadd (Fin False (9007199254740992 * one_mag)) (Fin False (1 * one_mag))
     = mk_float False (round_mag 0 (9007199254740992 * one_mag + 1 * one_mag))"
    by (rule fadd_pos) (simp add: one_mag_def)
  ultimately show ?thesis using is_double_int[of 9007199254740992 False]
    by (simp add: mk_float_def is_double_def)
qed

lemma is_double_one: "is_double (Fin s one_mag)"
  using is_double_int[of 1 s] by simp

lemma fadd_one_one: "fadd (Fin False one_mag) (Fin False one_mag) = Fin False (2 * one_mag)"
  using fadd_int[of 2 1 1] by simp

lemma fadd_tie_one:
  "fadd (Fin False (9007199254740992 * one_mag)) (Fin False one_mag)
     = Fin False (9007199254740992 * one_mag)"
  using fadd_tie by simp

lemma fadd_no_tie:
  "fadd (Fin False (9007199254740992 * one_mag)) (Fin False (2 * one_mag))
     = Fin False (9007199254740994 * one_mag)"
proof -
  have sum: "9007199254740992 * one_mag + 2 * one_mag = 9007199254740994 * one_mag" by simp
  have "round_mag 0 ((2 ^ 52 + 1) * 2 ^ 1075) = (2 ^ 52 + 1) * 2 ^ 1075"
    by (rule round_mag_0_fixed) simp
  moreover have "(2 ^ 52 + 1) * 2 ^ 1075 = 9007199254740994 * one_mag"
    by (simp add: one_mag_def)
  ultimately have r: "round_mag 0 (9007199254740994 * one_mag) = 9007199254740994 * one_mag"
    by (simp only:)
  have lt: "9007199254740994 * one_mag < inf_mag"
    by (simp add: one_mag_def inf_mag_def)
  have "fadd (Fin False (9007199254740992 * one_mag)) (Fin False (2 * one_mag))
     = mk_float False (round_mag 0 (9007199254740992 * one_mag + 2 * one_mag))"
    by (rule fadd_pos) (simp add: one_mag_def)
  also have "\<dots> = mk_float False (9007199254740994 * one_mag)" by (simp only: sum r)
  also have "\<dots> = Fin False (9007199254740994 * one_mag)" using lt by (simp add: mk_float_def)
  finally show ?thesis .
qed

subsection \<open>One item, one transaction, the whole input\<close>

lemma float_of_int_error: "float_of_int i = Inl e \<Longrightarrow> e = OverflowError"
  by (simp add: float_of_int_def Let_def split: if_splits)

lemma py_float_error:
  "py_float P v = Inl e \<Longrightarrow> caught e \<or> (\<exists>i. v = JInt i \<and> float_of_int i = Inl OverflowError)"
  by (cases v) (auto split: option.splits dest: float_of_int_error)

lemma py_key_error: "py_key v = Inl e \<Longrightarrow> e = TypeError"
  by (induction v rule: py_key.induct) simp_all

lemma item_amount_Inr:
  "item_amount P d item = Inr (p, c) \<Longrightarrow> contribution P d item = c"
  by (cases item)
     (auto simp: item_amount_def contribution_def field_def split: option.splits sum.splits)

lemma item_amount_Inl_caught:
  "item_amount P d item = Inl e \<Longrightarrow> caught e \<Longrightarrow> contribution P d item = None"
  by (cases item)
     (auto simp: item_amount_def contribution_def field_def split: option.splits sum.splits)

lemma item_amount_Inl:
  assumes "item_amount P d item = Inl e" and "\<not> caught e"
  shows "e = OverflowError \<and> big_quantity item"
proof (cases item)
  case (JObj kvs)
  from assms obtain qv where q: "map_of kvs ''quantity'' = Some qv" and f: "py_float P qv = Inl e"
    using JObj
    by (auto simp: item_amount_def split: option.splits sum.splits dest: py_key_error)
  from py_float_error[OF f] assms(2) obtain i where "qv = JInt i" "float_of_int i = Inl OverflowError"
    by auto
  moreover from this f have "e = OverflowError" by simp
  ultimately show ?thesis using q JObj
    by (simp add: big_quantity_def field_def)
qed (use assms in \<open>auto simp: item_amount_def\<close>)

lemma item_handler_None:
  assumes "item_handler e item s = (None, s')"
  shows "caught e" and "s' = emit (WarnInvalidItem item) s"
  using assms by (auto simp: item_handler_def split: if_splits)

lemma item_handler_Some:
  assumes "item_handler e item s = (Some e', s')"
  shows "s' = s \<and> ((\<not> caught e \<and> e' = e) \<or> (refused item \<and> e' = UnicodeEncodeError))"
  using assms by (auto simp: item_handler_def split: if_splits)

lemma process_item_None:
  assumes "process_item P item s = (None, s')"
  shows "total s' = add_opt (total s) (contribution P (prices s) item)"
    and "prices s' = prices s"
    and "\<exists>ms. console s' = console s @ ms"
proof -
  have "total s' = add_opt (total s) (contribution P (prices s) item)
      \<and> prices s' = prices s \<and> (\<exists>ms. console s' = console s @ ms)"
  proof (cases "item_amount P (prices s) item")
    case (Inl e)
    with assms have h: "item_handler e item s = (None, s')"
      by (simp add: process_item_def)
    from Inl item_handler_None(1)[OF h] have "contribution P (prices s) item = None"
      by (simp add: item_amount_Inl_caught)
    with item_handler_None(2)[OF h] show ?thesis by (simp add: emit_def add_opt_def)
  next
    case (Inr pc)
    obtain p c where pc: "pc = (p, c)" by (cases pc)
    with Inr have c: "contribution P (prices s) item = c"
      by (simp add: item_amount_Inr)
    show ?thesis
    proof (cases c)
      case None
      with Inr pc assms have "s' = emit (WarnNotInCatalogue p) s \<or> s' = emit (WarnInvalidItem item) s"
        by (auto simp: process_item_def split: if_splits dest: item_handler_None(2))
      with c None show ?thesis by (auto simp: emit_def add_opt_def)
    next
      case (Some x)
      with Inr pc assms c show ?thesis by (auto simp: process_item_def add_opt_def)
    qed
  qed
  then show "total s' = add_opt (total s) (contribution P (prices s) item)"
    and "prices s' = prices s" and "\<exists>ms. console s' = console s @ ms"
    by simp_all
qed

lemma process_item_Some:
  assumes "process_item P item s = (Some e, s')"
  shows "s' = s \<and> ((e = OverflowError \<and> big_quantity item) \<or> (e = UnicodeEncodeError \<and> refused item))"
proof (cases "item_amount P (prices s) item")
  case (Inl e')
  with assms have "item_handler e' item s = (Some e, s')"
    by (simp add: process_item_def)
  from item_handler_Some[OF this] item_amount_Inl[OF Inl] show ?thesis by auto
next
  case (Inr pc)
  obtain p c where pc: "pc = (p, c)" by (cases pc)
  show ?thesis
  proof (cases c)
    case None
    with Inr pc assms have "item_handler UnicodeEncodeError item s = (Some e, s')"
      by (auto simp: process_item_def split: if_splits)
    from item_handler_Some[OF this] show ?thesis by auto
  next
    case (Some x)
    with Inr pc assms show ?thesis by (simp add: process_item_def)
  qed
qed

lemma map_filter_Cons:
  "List.map_filter f (x # xs) = (case f x of None \<Rightarrow> List.map_filter f xs | Some y \<Rightarrow> y # List.map_filter f xs)"
  by (simp add: List.map_filter_def split: option.splits)

lemma map_filter_append: "List.map_filter f (xs @ ys) = List.map_filter f xs @ List.map_filter f ys"
  by (simp add: List.map_filter_def)

lemma foldl_add_opt:
  "foldl fadd (add_opt t (f x)) (List.map_filter f xs) = foldl fadd t (List.map_filter f (x # xs))"
  by (simp add: map_filter_Cons add_opt_def split: option.splits)

lemma items_loop_None:
  "items_loop P items s = (None, s') \<Longrightarrow>
     total s' = foldl fadd (total s) (List.map_filter (contribution P (prices s)) items)
   \<and> prices s' = prices s \<and> (\<exists>ms. console s' = console s @ ms)"
proof (induction items arbitrary: s)
  case Nil
  then show ?case by (simp add: List.map_filter_def)
next
  case (Cons item rest)
  from Cons.prems obtain s1 where 1: "process_item P item s = (None, s1)"
    and 2: "items_loop P rest s1 = (None, s')"
    by (auto split: prod.splits option.splits)
  from Cons.IH[OF 2] process_item_None[OF 1] show ?case
    by (auto simp: foldl_add_opt)
qed

lemma items_loop_Some:
  "items_loop P items s = (Some e, s') \<Longrightarrow>
     prices s' = prices s \<and>
     (\<exists>item\<in>set items. (e = OverflowError \<and> big_quantity item) \<or> (e = UnicodeEncodeError \<and> refused item))"
proof (induction items arbitrary: s)
  case Nil
  then show ?case by simp
next
  case (Cons item rest)
  show ?case
  proof (cases "process_item P item s")
    case (Pair r s1)
    show ?thesis
    proof (cases r)
      case None
      with Pair Cons.prems have "items_loop P rest s1 = (Some e, s')" by simp
      from Cons.IH[OF this] process_item_None(2)[of P item s s1] Pair None
      show ?thesis by auto
    next
      case (Some e')
      with Pair Cons.prems have "e' = e" "s1 = s'" by simp_all
      with process_item_Some[of P item s e s'] Pair Some show ?thesis by auto
    qed
  qed
qed

lemma process_sale_None:
  assumes "process_sale P sale s = (None, s')"
  shows "total s' = foldl fadd (total s) (List.map_filter (contribution P (prices s)) (line_items sale))
   \<and> prices s' = prices s \<and> (\<exists>ms. console s' = console s @ ms)"
proof (cases sale)
  case (JObj kvs)
  show ?thesis
  proof (cases "map_of kvs ''items''")
    case None
    with JObj assms show ?thesis
      by (simp add: process_sale_def line_items_def field_def List.map_filter_def)
  next
    case (Some v)
    show ?thesis
    proof (cases "\<exists>items. v = JArr items")
      case True
      then obtain items where v: "v = JArr items" ..
      with Some JObj assms have "items_loop P items s = (None, s')"
        by (simp add: process_sale_def)
      from items_loop_None[OF this] v Some JObj show ?thesis
        by (simp add: line_items_def field_def)
    next
      case False
      with Some JObj assms have "s' = emit (WarnInvalidItems sale) s"
        by (cases v) (simp_all add: process_sale_def)
      moreover from False Some JObj have "line_items sale = []"
        by (cases v) (simp_all add: line_items_def field_def)
      ultimately show ?thesis by (simp add: emit_def List.map_filter_def)
    qed
  qed
qed (use assms in \<open>simp_all add: process_sale_def\<close>)

lemma process_sale_Some:
  assumes "process_sale P sale s = (Some e, s')"
  shows "prices s' = prices s"
    and "is_record sale \<Longrightarrow> \<exists>item\<in>set (line_items sale). refused item \<or> big_quantity item"
proof -
  have "prices s' = prices s \<and>
    (is_record sale \<longrightarrow> (\<exists>item\<in>set (line_items sale). refused item \<or> big_quantity item))"
  proof (cases sale)
    case (JObj kvs)
    show ?thesis
    proof (cases "map_of kvs ''items''")
      case None
      with JObj assms show ?thesis by (simp add: process_sale_def)
    next
      case (Some v)
      show ?thesis
      proof (cases "\<exists>items. v = JArr items")
        case True
        then obtain items where v: "v = JArr items" ..
        with Some JObj assms have "items_loop P items s = (Some e, s')"
          by (simp add: process_sale_def)
        from items_loop_Some[OF this] v Some JObj show ?thesis
          by (auto simp: line_items_def field_def)
      next
        case False
        with Some JObj assms show ?thesis
          by (cases v) (simp_all add: process_sale_def)
      qed
    qed
  qed (use assms in \<open>auto simp: process_sale_def is_record_def\<close>)
  then show "prices s' = prices s"
    and "is_record sale \<Longrightarrow> \<exists>item\<in>set (line_items sale). refused item \<or> big_quantity item"
    by simp_all
qed

lemma contributions_Cons:
  "contributions P d (sale # rest) =
     List.map_filter (contribution P d) (line_items sale) @ contributions P d rest"
  by (simp add: contributions_def map_filter_append)

lemma sales_loop_None:
  "sales_loop P sales s = (None, s') \<Longrightarrow>
     total s' = foldl fadd (total s) (contributions P (prices s) sales)
   \<and> prices s' = prices s \<and> (\<exists>ms. console s' = console s @ ms)"
proof (induction sales arbitrary: s)
  case Nil
  then show ?case by (simp add: contributions_def List.map_filter_def)
next
  case (Cons sale rest)
  from Cons.prems obtain s1 where 1: "process_sale P sale s = (None, s1)"
    and 2: "sales_loop P rest s1 = (None, s')"
    by (auto split: prod.splits option.splits)
  from Cons.IH[OF 2] process_sale_None[OF 1] show ?case
    by (auto simp: contributions_Cons)
qed

lemma sales_loop_prices: "prices (snd (sales_loop P sales s)) = prices s"
proof (induction sales arbitrary: s)
  case Nil
  then show ?case by simp
next
  case (Cons sale rest)
  show ?case
  proof (cases "process_sale P sale s")
    case (Pair r s1)
    with Cons.IH[of s1] process_sale_None[of P sale s s1] process_sale_Some(1)[of P sale s _ s1]
    show ?thesis by (cases r) auto
  qed
qed

lemma sales_loop_returns:
  "\<forall>sale\<in>set sales. is_record sale
       \<and> (\<forall>item\<in>set (line_items sale). \<not> refused item \<and> \<not> big_quantity item)
   \<Longrightarrow> fst (sales_loop P sales s) = None"
proof (induction sales arbitrary: s)
  case Nil
  then show ?case by simp
next
  case (Cons sale rest)
  show ?case
  proof (cases "process_sale P sale s")
    case (Pair r s1)
    show ?thesis
    proof (cases r)
      case None
      with Pair Cons show ?thesis by simp
    next
      case (Some e)
      with Pair process_sale_Some(2)[of P sale s e s1] Cons.prems show ?thesis by auto
    qed
  qed
qed

lemma compute_total_sales_list:
  "compute_total_sales P (JArr sales) d =
     (case sales_loop P sales \<lparr>prices = d, total = fzero, console = []\<rparr> of
        (None, s) \<Rightarrow> (Inr (total s), s)
      | (Some e, s) \<Rightarrow> (Inl e, s))"
  by (simp add: compute_total_sales_def)

lemma compute_total_sales_returns:
  assumes "sales_in_domain sales"
  shows "\<exists>s. compute_total_sales P (JArr sales) d =
           (Inr (foldl fadd fzero (contributions P d sales)), s)"
proof -
  let ?s0 = "\<lparr>prices = d, total = fzero, console = []\<rparr>"
  obtain r s where rs: "sales_loop P sales ?s0 = (r, s)" by (cases "sales_loop P sales ?s0")
  from assms have "\<forall>sale\<in>set sales. is_record sale
      \<and> (\<forall>item\<in>set (line_items sale). \<not> refused item \<and> \<not> big_quantity item)"
    by (simp add: sales_in_domain_def list_all_iff)
  from rs sales_loop_returns[OF this, of P ?s0] have r: "r = None" by simp
  with rs sales_loop_None[of P sales ?s0 s]
  have "total s = foldl fadd fzero (contributions P d sales)" by simp
  with rs r show ?thesis by (simp add: compute_total_sales_list)
qed

lemma compute_total_sales_Inr:
  assumes "fst (compute_total_sales P (JArr sales) d) = Inr t"
  shows "t = foldl fadd fzero (contributions P d sales)"
proof -
  let ?s0 = "\<lparr>prices = d, total = fzero, console = []\<rparr>"
  obtain r s where rs: "sales_loop P sales ?s0 = (r, s)" by (cases "sales_loop P sales ?s0")
  with assms have "r = None" "t = total s"
    by (cases r; simp add: compute_total_sales_list)+
  with rs sales_loop_None[of P sales ?s0 s] show ?thesis by simp
qed

lemma sales_loop_append:
  "sales_loop P (xs @ ys) s =
     (case sales_loop P xs s of
        (None, s') \<Rightarrow> sales_loop P ys s'
      | (Some e, s') \<Rightarrow> (Some e, s'))"
  by (induction xs arbitrary: s) (auto split: prod.splits option.splits)

lemma compute_total_sales_prefix:
  assumes "fst (compute_total_sales P (JArr (xs @ ys)) d) = Inr u"
  shows "\<exists>t. fst (compute_total_sales P (JArr xs) d) = Inr t"
proof -
  let ?s0 = "\<lparr>prices = d, total = fzero, console = []\<rparr>"
  obtain r s where rs: "sales_loop P xs ?s0 = (r, s)" by (cases "sales_loop P xs ?s0")
  with assms have "r = None"
    by (cases r) (auto simp: compute_total_sales_list sales_loop_append split: prod.splits)
  with rs show ?thesis by (simp add: compute_total_sales_list)
qed

lemma fadd_zero_small:
  "q < 2 ^ 53 \<Longrightarrow> fadd fzero (Fin False (q * one_mag)) = Fin False (q * one_mag)"
  using fadd_small[of 0 q] by (simp add: fzero_def)

subsection \<open>The index builder\<close>

lemma price_entry_Inr: "price_entry P entry = Inr kp \<longleftrightarrow> catalogue_entry P entry = Some kp"
  by (cases entry)
     (auto simp: price_entry_def catalogue_entry_def field_def split: option.splits sum.splits)

lemma price_entry_caught:
  "price_entry P entry = Inl e \<Longrightarrow> catalogue_entry P entry = None"
  by (cases entry)
     (auto simp: price_entry_def catalogue_entry_def field_def split: option.splits sum.splits)

lemma build_loop_Cons_valid:
  "catalogue_entry P entry = Some (k, price) \<Longrightarrow>
     build_loop P (entry # rest) (d, out) = build_loop P rest (d(k \<mapsto> price), out)"
  by (simp add: price_entry_Inr[symmetric])

lemma build_loop_append:
  "build_loop P (xs @ ys) st =
     (case build_loop P xs st of
        (None, d, out) \<Rightarrow> build_loop P ys (d, out)
      | (Some e, d, out) \<Rightarrow> (Some e, d, out))"
proof (induction xs arbitrary: st)
  case Nil
  then show ?case by (cases st) simp
next
  case (Cons x xs)
  obtain d out where st: "st = (d, out)" by (cases st)
  show ?case
  proof (cases "price_entry P x")
    case (Inl e)
    with st Cons.IH show ?thesis by simp
  next
    case (Inr kp)
    with st Cons.IH show ?thesis by (cases kp) simp
  qed
qed

lemma build_loop_other_key:
  "build_loop P entries (d, out) = (None, d', out') \<Longrightarrow> no_entry_for P k entries \<Longrightarrow> d' k = d k"
proof (induction entries arbitrary: d out)
  case Nil
  then show ?case by simp
next
  case (Cons x xs)
  show ?case
  proof (cases "price_entry P x")
    case (Inl e)
    with Cons.prems have "build_loop P xs (d, out @ [WarnInvalidPrice x]) = (None, d', out')"
      by (simp split: if_splits)
    from Cons.IH[OF this] Cons.prems(2) show ?thesis by (simp add: no_entry_for_def)
  next
    case (Inr kp)
    obtain k' p where kp: "kp = (k', p)" by (cases kp)
    with Inr Cons.prems have "build_loop P xs (d(k' \<mapsto> p), out) = (None, d', out')" by simp
    from Cons.IH[OF this] Cons.prems(2) have "d' k = (d(k' \<mapsto> p)) k" by (simp add: no_entry_for_def)
    moreover from Inr kp Cons.prems(2) have "k' \<noteq> k"
      by (auto simp: no_entry_for_def price_entry_Inr)
    ultimately show ?thesis by simp
  qed
qed

lemma build_loop_valid:
  "all_valid P entries \<Longrightarrow>
     \<exists>d'. build_loop P entries (d, out) = (None, d', out) \<and> dom d' = dom d \<union> set (entry_keys P entries)"
proof (induction entries arbitrary: d)
  case Nil
  then show ?case by (simp add: entry_keys_def List.map_filter_def)
next
  case (Cons x xs)
  from Cons.prems obtain k p where x: "catalogue_entry P x = Some (k, p)" and xs: "all_valid P xs"
    by (auto simp: all_valid_def)
  from Cons.IH[OF xs, of "d(k \<mapsto> p)"]
  obtain d' where d': "build_loop P xs (d(k \<mapsto> p), out) = (None, d', out)"
    and dom: "dom d' = dom (d(k \<mapsto> p)) \<union> set (entry_keys P xs)" by blast
  from x have "set (entry_keys P (x # xs)) = insert k (set (entry_keys P xs))"
    by (simp add: entry_keys_def map_filter_Cons)
  with dom have "dom d' = dom d \<union> set (entry_keys P (x # xs))" by auto
  with d' x show ?case
    by (simp add: build_loop_Cons_valid del: build_loop.simps)
qed

lemma build_price_dict_list:
  "build_price_dict P (JArr entries) =
     (case build_loop P entries (Map.empty, []) of
        (None, d, out) \<Rightarrow> (Inr d, out)
      | (Some e, d, out) \<Rightarrow> (Inl e, out))"
  by (simp add: build_price_dict_def)

subsection \<open>The entry point\<close>

lemma main_ending_write: "ending (main argv (ev\<lparr>write_error := w\<rparr>)) = ending (main argv ev)"
  by (simp add: main_def Let_def split: prod.splits sum.splits)

lemma main_not_loaded:
  assumes "length argv = 3" and "\<not> loads ev (argv ! 1) \<or> \<not> loads ev (argv ! 2)"
  shows "exit_status (ending (main argv ev)) = 1"
proof (cases "read_file ev (argv ! 1)")
  case (Parsed pd)
  show ?thesis
  proof (cases "read_file ev (argv ! 2)")
    case sd: (Parsed sd)
    with Parsed assms have "pd = JNull \<or> sd = JNull" by (auto simp: loads_def)
    with Parsed sd assms(1) show ?thesis by (auto simp: main_def load_json_file_def)
  qed (use Parsed assms(1) in \<open>simp_all add: main_def load_json_file_def report_def\<close>)
qed (use assms(1) in
    \<open>auto simp: main_def load_json_file_def report_def split: read_outcome.splits\<close>)

lemma main_completes:
  assumes "length argv = 3"
    and "read_file ev (argv ! 1) = Parsed pd" and "read_file ev (argv ! 2) = Parsed sd"
    and "pd \<noteq> JNull" and "sd \<noteq> JNull"
    and "build_price_dict (str_float ev) pd = (Inr d, o3)"
    and "compute_total_sales (str_float ev) sd d = (Inr t, s)"
  shows "ending (main argv ev) = Returned"
  using assms by (simp add: main_def load_json_file_def Let_def split: prod.splits)

text \<open>
  The three failures that \<open>load_json_file\<close> handles, for a file name that the console
  accepts: the result is \<open>None\<close> and one line is printed.
\<close>

lemma load_failures_reported:
  assumes "\<not> lone_surrogate filename"
  shows "rd filename = NoSuchFile \<Longrightarrow>
      load_json_file rd filename = (Inr JNull, [ErrNotFound filename])"
    and "rd filename = BadJSON \<Longrightarrow>
      load_json_file rd filename = (Inr JNull, [ErrInvalidJSON filename])"
    and "rd filename = IOFailure c \<Longrightarrow>
      load_json_file rd filename = (Inr JNull, [ErrCannotOpen filename c])"
  using assms by (simp_all add: load_json_file_def report_def)

subsection \<open>Lists of transactions\<close>

lemma contributions_append:
  "contributions P d (xs @ ys) = contributions P d xs @ contributions P d ys"
  by (simp add: contributions_def map_filter_append)

lemma contribution_not_big: "contribution P d item = Some x \<Longrightarrow> \<not> big_quantity item"
  by (auto simp: contribution_def big_quantity_def split: option.splits sum.splits json.splits)

lemma sales_in_domain_append:
  "sales_in_domain (xs @ ys) \<longleftrightarrow> sales_in_domain xs \<and> sales_in_domain ys"
  by (simp add: sales_in_domain_def)

lemma sales_in_domain_Cons:
  "sales_in_domain (sale # rest) \<longleftrightarrow>
     is_record sale
     \<and> list_all (\<lambda>item. \<not> refused item \<and> \<not> big_quantity item) (line_items sale)
     \<and> sales_in_domain rest"
  by (simp add: sales_in_domain_def)

lemmas eval_defs =
  compute_total_sales_def process_sale_def process_item_def item_amount_def item_handler_def
  line_item_def transaction_def

text \<open>
  An integer beyond the largest double makes \<open>float\<close> raise \<open>OverflowError\<close>, which
  the handler of the item loop does not list: the exception leaves the function.
\<close>

lemma float_of_int_overflow:
  assumes "2 ^ 1024 \<le> \<bar>i\<bar>"
  shows "float_of_int i = Inl OverflowError"
proof -
  from assms have "2 ^ 1024 \<le> nat \<bar>i\<bar>" by (simp add: le_nat_iff)
  then have "2 ^ 1024 * 2 ^ 1074 \<le> nat \<bar>i\<bar> * 2 ^ 1074" by (rule mult_le_mono1)
  moreover have "(2::nat) ^ 1024 * 2 ^ 1074 = 2 ^ 2098"
    by (simp only: flip: power_add) simp
  ultimately have "inf_mag \<le> nat \<bar>i\<bar> * one_mag" by (simp only: inf_mag_def one_mag_def)
  then have "round_mag 0 inf_mag \<le> round_mag 0 (nat \<bar>i\<bar> * one_mag)" by (rule round_mag_0_mono)
  then show ?thesis by (simp add: float_of_int_def round_mag_0_inf)
qed

lemma huge_quantity_raises:
  "fst (compute_total_sales P (JArr [transaction [line_item ''A'' (10 ^ 400)]]) d) = Inl OverflowError"
proof -
  have "(2::int) ^ 1024 \<le> \<bar>10 ^ 400\<bar>" by simp
  then have "float_of_int (10 ^ 400) = Inl OverflowError" by (rule float_of_int_overflow)
  then show ?thesis by (simp add: eval_defs)
qed

text \<open>
  A line item that is the \<open>str\<close> \<open>"\ud800"\<close> is reported as invalid, and the console
  refuses the report: the \<open>UnicodeEncodeError\<close> of the \<open>print\<close> leaves the function. As a
  product that is not in the catalogue, the same \<open>str\<close> makes the \<open>print\<close> inside the
  \<open>try\<close> raise; the handler then reports the item, a dict, as invalid.
\<close>

lemma surrogate_item_raises:
  "fst (compute_total_sales P (JArr [transaction [JStr [CHR 0xED, CHR 0xA0, CHR 0x80]]]) d)
     = Inl UnicodeEncodeError"
  by (simp add: eval_defs)

lemma surrogate_product_reported:
  "compute_total_sales P
     (JArr [transaction [JObj [(''product'', JStr [CHR 0xED, CHR 0xA0, CHR 0x80]),
                               (''quantity'', JInt 1)]]]) Map.empty
   = (Inr fzero, \<lparr>prices = Map.empty, total = fzero,
        console = [WarnInvalidItem (JObj [(''product'', JStr [CHR 0xED, CHR 0xA0, CHR 0x80]),
                                            (''quantity'', JInt 1)])]\<rparr>)"
  by (simp add: eval_defs emit_def float_of_int_small)

section \<open>The claims about the aggregator\<close>

text \<open>
  Claim C9. For every sales input and price index, running \<open>compute_total_sales\<close>
  leaves the price index unchanged: the dict that the final state holds is the dict
  the function was given, whether it returns or an exception leaves it.
\<close>

theorem price_index_unchanged:
  "prices (snd (compute_total_sales P sales_data d)) = d"
proof (cases "py_iter sales_data")
  case (Inl e)
  then show ?thesis by (simp add: compute_total_sales_def)
next
  case (Inr sales)
  let ?s0 = "\<lparr>prices = d, total = fzero, console = []\<rparr>"
  have "prices (snd (sales_loop P sales ?s0)) = d"
    using sales_loop_prices[of P sales ?s0] by simp
  with Inr show ?thesis
    by (auto simp: compute_total_sales_def Let_def split: prod.splits option.splits)
qed

text \<open>
  Claim C1, as the code has it. For every list of transactions and every price index,
  whenever \<open>compute_total_sales\<close> returns, the result is the running float total:
  starting from \<open>0.0\<close> it adds, in iteration order and rounding each product and each
  partial sum to the nearest double, \<open>price * quantity\<close> for every line item that has a
  \<open>product\<close>, a \<open>quantity\<close> coercible to float and a product that is a key of the price
  index; every other item adds nothing. It does return when the transactions are
  records, no line item is a \<open>str\<close> that the console refuses and no quantity is an
  integer beyond the range of a float; with no valid resolvable item the result is
  then \<open>0.0\<close>.
\<close>

theorem total_is_sum_of_contributions:
  "(fst (compute_total_sales P (JArr sales) d) = Inr t \<longrightarrow>
      t = foldl fadd fzero (contributions P d sales))
   \<and> (sales_in_domain sales \<longrightarrow>
      fst (compute_total_sales P (JArr sales) d) = Inr (foldl fadd fzero (contributions P d sales)))
   \<and> (sales_in_domain sales \<and> contributions P d sales = [] \<longrightarrow>
      fst (compute_total_sales P (JArr sales) d) = Inr fzero)"
  using compute_total_sales_Inr[of P sales d t] compute_total_sales_returns[of sales P d] by auto

text \<open>
  Scenario A of the specification: one item of quantity 2 at price 10 totals 20.
\<close>

theorem total_is_sum_of_contributions_witness:
  "sales_in_domain
      [JObj [(''items'', JArr [JObj [(''product'', JStr ''A''), (''quantity'', JInt 2)]])]]
   \<and> fst (compute_total_sales (\<lambda>s. None)
        (JArr [JObj [(''items'', JArr [JObj [(''product'', JStr ''A''), (''quantity'', JInt 2)]])]])
        [KStr ''A'' \<mapsto> Fin False (10 * one_mag)]) = Inr (Fin False (20 * one_mag))"
  using total_is_sum_of_contributions
    [of "\<lambda>s. None"
        "[JObj [(''items'', JArr [JObj [(''product'', JStr ''A''), (''quantity'', JInt 2)]])]]"
        "[KStr ''A'' \<mapsto> Fin False (10 * one_mag)]" "Fin False (20 * one_mag)"]
  by (simp add: sales_in_domain_def is_record_def line_items_def field_def big_quantity_def
        contributions_def contribution_def List.map_filter_def float_of_int_small fmul_small
        fadd_zero_small del: fmul.simps fadd.simps)

text \<open>
  Claim C1 as stated gives the sum. At price 1, a transaction sells \<open>2^53\<close> units
  and then one unit twice. The sum of the three contributions is \<open>2^53 + 2\<close>, which is
  a double; the function returns \<open>2^53\<close>, since each single unit is rounded away when
  it is added to the running total.
\<close>

theorem rounded_total_is_not_the_sum:
  "contributions (\<lambda>s. None) [KStr ''A'' \<mapsto> fone]
      [transaction [line_item ''A'' 9007199254740992, line_item ''A'' 1, line_item ''A'' 1]]
     = [Fin False (9007199254740992 * one_mag), Fin False one_mag, Fin False one_mag]
   \<and> fst (compute_total_sales (\<lambda>s. None)
        (JArr [transaction [line_item ''A'' 9007199254740992, line_item ''A'' 1, line_item ''A'' 1]])
        [KStr ''A'' \<mapsto> fone]) = Inr (Fin False (9007199254740992 * one_mag))
   \<and> 9007199254740992 * one_mag + one_mag + one_mag = 9007199254740994 * one_mag
   \<and> is_double (Fin False (9007199254740994 * one_mag))
   \<and> 9007199254740992 * one_mag \<noteq> 9007199254740994 * one_mag"
proof -
  have "9007199254740992 * one_mag \<noteq> 9007199254740994 * one_mag"
    by (simp add: one_mag_def)
  moreover have "is_double (Fin False (9007199254740994 * one_mag))"
  proof -
    have "9007199254740994 * one_mag = (2 ^ 52 + 1) * 2 ^ 1075" by (simp add: one_mag_def)
    moreover have "round_mag 0 ((2 ^ 52 + 1) * 2 ^ 1075) = (2 ^ 52 + 1) * 2 ^ 1075"
      by (rule round_mag_0_fixed) simp
    ultimately have "round_mag 0 (9007199254740994 * one_mag) = 9007199254740994 * one_mag"
      by (simp only:)
    moreover have "9007199254740994 * one_mag < inf_mag" by (simp add: one_mag_def inf_mag_def)
    ultimately show ?thesis by (simp add: is_double_def)
  qed
  ultimately show ?thesis
    by (simp add: eval_defs contributions_def contribution_def line_items_def field_def
          List.map_filter_def float_of_int_exact fmul_one_left fadd_zero_left is_double_int
          is_double_one fadd_tie_one del: fadd.simps fmul.simps)
qed

text \<open>
  Claim C2, as the code has it. For every list of transactions that are records, in
  which no line item is a \<open>str\<close> that the console refuses (one with a lone surrogate)
  and no line item's quantity is an integer beyond the range of a float,
  \<open>compute_total_sales\<close> returns a float, whatever else the shape of the items.
\<close>

theorem never_raises_on_records:
  assumes "sales_in_domain sales"
  shows "\<exists>t s. compute_total_sales P (JArr sales) d = (Inr t, s)"
  using compute_total_sales_returns[OF assms, of P d] by blast

text \<open>
  Items that are a number, a string, \<open>None\<close>, a record without quantity, with a
  non-numeric quantity or with an unhashable product, a transaction whose items are a
  string and a transaction without items: the function returns.
\<close>

theorem never_raises_on_records_witness:
  "sales_in_domain
      [JObj [(''items'', JArr [JInt 5, JStr ''x'', JNull, JObj [(''product'', JStr ''A'')],
         JObj [(''product'', JStr ''A''), (''quantity'', JStr ''abc'')],
         JObj [(''product'', JArr []), (''quantity'', JInt 1)]])],
       JObj [(''items'', JStr ''bad'')], JObj []]
   \<and> (\<exists>t s. compute_total_sales (\<lambda>s. None)
        (JArr [JObj [(''items'', JArr [JInt 5, JStr ''x'', JNull, JObj [(''product'', JStr ''A'')],
         JObj [(''product'', JStr ''A''), (''quantity'', JStr ''abc'')],
         JObj [(''product'', JArr []), (''quantity'', JInt 1)]])],
       JObj [(''items'', JStr ''bad'')], JObj []])
        Map.empty = (Inr t, s))"
  using never_raises_on_records
    [of "[JObj [(''items'', JArr [JInt 5, JStr ''x'', JNull, JObj [(''product'', JStr ''A'')],
         JObj [(''product'', JStr ''A''), (''quantity'', JStr ''abc'')],
         JObj [(''product'', JArr []), (''quantity'', JInt 1)]])],
       JObj [(''items'', JStr ''bad'')], JObj []]" "\<lambda>s. None" Map.empty]
  by (simp add: sales_in_domain_def is_record_def line_items_def field_def big_quantity_def float_of_int_small)

text \<open>
  Claim C2 as stated includes transactions that are not records. On the list \<open>[5]\<close>
  the function does not return: \<open>sale.get\<close> raises \<open>AttributeError\<close>, which no handler
  catches.
\<close>

theorem raises_on_non_record: 
  "fst (compute_total_sales (\<lambda>s. None) (JArr [JInt 5]) Map.empty) = Inl AttributeError"
  by (simp add: compute_total_sales_def process_sale_def)

text \<open>
  Claim C3, as the code has it. A transaction whose \<open>items\<close> field is present and is
  not a list makes the loop print \<open>WARNING: Invalid items format in sale: <sale>\<close>,
  change nothing else and go on with the next transaction. A record whose \<open>items\<close>
  field is missing is read as having the empty list of items: the loop goes on with
  the next transaction and prints nothing.
\<close>

theorem invalid_items_skipped:
  "(field sale ''items'' = Some v \<and> (\<forall>items. v \<noteq> JArr items) \<longrightarrow>
      sales_loop P (sale # rest) s = sales_loop P rest (emit (WarnInvalidItems sale) s))
   \<and> (is_record sale \<and> field sale ''items'' = None \<longrightarrow>
      sales_loop P (sale # rest) s = sales_loop P rest s)"
proof (cases sale)
  case (JObj kvs)
  have "map_of kvs ''items'' = Some v \<Longrightarrow> \<forall>items. v \<noteq> JArr items \<Longrightarrow>
      process_sale P sale s = (None, emit (WarnInvalidItems sale) s)"
    using JObj by (cases v) (simp_all add: process_sale_def)
  moreover have "map_of kvs ''items'' = None \<Longrightarrow> process_sale P sale s = (None, s)"
    using JObj by (simp add: process_sale_def)
  ultimately show ?thesis using JObj by (auto simp: field_def)
qed (simp_all add: field_def is_record_def)

text \<open>Scenario C of the specification: \<open>items\<close> is the string \<open>"bad"\<close>.\<close>

theorem invalid_items_skipped_witness:
  "field (JObj [(''items'', JStr ''bad'')]) ''items'' = Some (JStr ''bad'')
   \<and> (\<forall>items. JStr ''bad'' \<noteq> JArr items)
   \<and> sales_loop (\<lambda>s. None) [JObj [(''items'', JStr ''bad'')], JObj []]
        \<lparr>prices = Map.empty, total = fzero, console = []\<rparr>
      = (None, \<lparr>prices = Map.empty, total = fzero,
                 console = [WarnInvalidItems (JObj [(''items'', JStr ''bad'')])]\<rparr>)"
  using invalid_items_skipped
    [of "JObj [(''items'', JStr ''bad'')]" "JStr ''bad''" "\<lambda>s. None" "[JObj []]"
        "\<lparr>prices = Map.empty, total = fzero, console = []\<rparr>"]
  by (simp add: field_def emit_def process_sale_def)

text \<open>
  Claim C3 as stated promises the warning also when the \<open>items\<close> field is missing. On
  the single transaction \<open>{}\<close> nothing is printed.
\<close>

theorem missing_items_no_warning:
  "field (JObj []) ''items'' = None
   \<and> console (snd (compute_total_sales (\<lambda>s. None) (JArr [JObj []]) Map.empty)) = []"
  by (simp add: compute_total_sales_def process_sale_def field_def)

text \<open>
  Claim C5, as the code has it. Take a sales input, a price index and a valid line item
  whose product is a key of the index and whose \<open>price * quantity\<close> is non-negative.
  Add the item to one of the transactions, at any place among its items. Whenever
  \<open>compute_total_sales\<close> returns on the input and on the input with the item, and
  neither total is a NaN (which compares with nothing), the new total is greater than
  or equal to the original one.
\<close>

theorem adding_item_never_decreases:
  assumes "line_items sale = items1 @ items2"
    and "line_items sale' = items1 @ item # items2"
    and "contribution P d item = Some x"
    and "nonneg x"
    and "fst (compute_total_sales P (JArr (pre @ sale # post)) d) = Inr t"
    and "fst (compute_total_sales P (JArr (pre @ sale' # post)) d) = Inr t'"
  shows "fle t t' \<longleftrightarrow> t \<noteq> NaN \<and> t' \<noteq> NaN"
proof
  assume "fle t t'"
  then show "t \<noteq> NaN \<and> t' \<noteq> NaN" by (rule fle_not_NaN)
next
  assume n: "t \<noteq> NaN \<and> t' \<noteq> NaN"
  let ?mf = "List.map_filter (contribution P d)"
  define A where "A = contributions P d pre @ ?mf items1"
  define B where "B = ?mf items2 @ contributions P d post"
  have old: "contributions P d (pre @ sale # post) = A @ B"
    by (simp add: contributions_append contributions_Cons assms(1) map_filter_append A_def B_def)
  have new: "contributions P d (pre @ sale' # post) = A @ x # B"
    by (simp add: contributions_append contributions_Cons assms(2,3) map_filter_append
          map_filter_Cons A_def B_def)
  from compute_total_sales_Inr[OF assms(5)] compute_total_sales_Inr[OF assms(6)]
  have t: "t = foldl fadd fzero (A @ B)" and t': "t' = foldl fadd fzero (A @ x # B)"
    by (simp_all only: old new)
  from assms(4) n show "fle t t'" unfolding t t' by (intro insert_nonneg) simp_all
qed

text \<open>
  At price 10, a transaction of three units and of two units returned (a total of 10)
  receives three more units: the total is 40.
\<close>

theorem adding_item_never_decreases_witness:
  "line_items (transaction [line_item ''A'' 3, line_item ''A'' (- 2)])
     = [line_item ''A'' 3, line_item ''A'' (- 2)] @ []
   \<and> line_items (transaction [line_item ''A'' 3, line_item ''A'' (- 2), line_item ''A'' 3])
     = [line_item ''A'' 3, line_item ''A'' (- 2)] @ line_item ''A'' 3 # []
   \<and> contribution (\<lambda>s. None) [KStr ''A'' \<mapsto> Fin False (10 * one_mag)] (line_item ''A'' 3)
     = Some (Fin False (30 * one_mag))
   \<and> nonneg (Fin False (30 * one_mag))
   \<and> fst (compute_total_sales (\<lambda>s. None)
        (JArr ([] @ transaction [line_item ''A'' 3, line_item ''A'' (- 2)] # []))
        [KStr ''A'' \<mapsto> Fin False (10 * one_mag)]) = Inr (Fin False (10 * one_mag))
   \<and> fst (compute_total_sales (\<lambda>s. None)
        (JArr ([] @ transaction [line_item ''A'' 3, line_item ''A'' (- 2), line_item ''A'' 3] # []))
        [KStr ''A'' \<mapsto> Fin False (10 * one_mag)]) = Inr (Fin False (40 * one_mag))
   \<and> fle (Fin False (10 * one_mag)) (Fin False (40 * one_mag))"
proof -
  have 1: "fadd (Fin False (30 * one_mag)) (Fin True (20 * one_mag)) = Fin False (10 * one_mag)"
    using fadd_small_sub[of 20 30] by simp
  have 2: "fadd (Fin False (10 * one_mag)) (Fin False (30 * one_mag)) = Fin False (40 * one_mag)"
    using fadd_small[of 10 30] by simp
  from adding_item_never_decreases
    [of "transaction [line_item ''A'' 3, line_item ''A'' (- 2)]"
        "[line_item ''A'' 3, line_item ''A'' (- 2)]" "[]"
        "transaction [line_item ''A'' 3, line_item ''A'' (- 2), line_item ''A'' 3]"
        "line_item ''A'' 3" "\<lambda>s. None" "[KStr ''A'' \<mapsto> Fin False (10 * one_mag)]"
        "Fin False (30 * one_mag)" "[]" "[]" "Fin False (10 * one_mag)" "Fin False (40 * one_mag)"]
  show ?thesis
    by (simp add: eval_defs line_items_def field_def contribution_def float_of_int_small
          fmul_small fadd_zero_small 1 2 nonneg_iff del: fmul.simps fadd.simps fle.simps)
qed

text \<open>
  Claim C5 as stated has no condition on signs. A line item of quantity \<open>-2\<close> is
  valid and resolvable; added to a transaction of two units at price 10 it takes the
  total from 20 down to 0.
\<close>

theorem negative_quantity_decreases:
  "contribution (\<lambda>s. None) [KStr ''A'' \<mapsto> Fin False (10 * one_mag)] (line_item ''A'' (- 2))
     = Some (Fin True (20 * one_mag))
   \<and> fst (compute_total_sales (\<lambda>s. None) (JArr [transaction [line_item ''A'' 2]])
        [KStr ''A'' \<mapsto> Fin False (10 * one_mag)]) = Inr (Fin False (20 * one_mag))
   \<and> fst (compute_total_sales (\<lambda>s. None)
        (JArr [transaction [line_item ''A'' 2, line_item ''A'' (- 2)]])
        [KStr ''A'' \<mapsto> Fin False (10 * one_mag)]) = Inr (Fin False 0)
   \<and> \<not> fle (Fin False (20 * one_mag)) (Fin False 0)"
proof -
  have "fadd (Fin False (20 * one_mag)) (Fin True (20 * one_mag)) = Fin False 0"
    by (simp add: signed_def)
  moreover have "\<not> fle (Fin False (20 * one_mag)) (Fin False 0)"
    by (simp add: signed_def one_mag_def)
  ultimately show ?thesis
    by (simp add: eval_defs contribution_def field_def float_of_int_small fmul_small
          fadd_zero_small del: fadd.simps fmul.simps fle.simps)
qed

text \<open>
  Claim C10, as the code has it. For transaction lists \<open>xs\<close> and \<open>ys\<close> and every price
  index, whenever \<open>compute_total_sales\<close> returns on \<open>xs @ ys\<close> it returns on \<open>xs\<close>, and the
  total of \<open>xs @ ys\<close> is the total of \<open>xs\<close> to which the contributions of \<open>ys\<close> are
  added one after the other, in iteration order. It returns on \<open>xs @ ys\<close> when both
  lists hold records, no \<open>str\<close> item that the console refuses and no integer quantity
  beyond the range of a float. The total of the empty list is \<open>0.0\<close>.
\<close>

theorem total_of_concatenation:
  "(fst (compute_total_sales P (JArr (xs @ ys)) d) = Inr u \<longrightarrow>
      (\<exists>t. fst (compute_total_sales P (JArr xs) d) = Inr t
         \<and> u = foldl fadd t (contributions P d ys)))
   \<and> (sales_in_domain xs \<and> sales_in_domain ys \<longrightarrow>
      (\<exists>u. fst (compute_total_sales P (JArr (xs @ ys)) d) = Inr u))
   \<and> fst (compute_total_sales P (JArr []) d) = Inr fzero"
proof -
  have "\<exists>t. fst (compute_total_sales P (JArr xs) d) = Inr t
         \<and> u = foldl fadd t (contributions P d ys)"
    if u: "fst (compute_total_sales P (JArr (xs @ ys)) d) = Inr u"
  proof -
    from compute_total_sales_prefix[OF u] obtain t
      where t: "fst (compute_total_sales P (JArr xs) d) = Inr t" ..
    from compute_total_sales_Inr[OF t] compute_total_sales_Inr[OF u]
    have "u = foldl fadd t (contributions P d ys)" by (simp add: contributions_append)
    with t show ?thesis by blast
  qed
  moreover have "\<exists>u. fst (compute_total_sales P (JArr (xs @ ys)) d) = Inr u"
    if "sales_in_domain xs \<and> sales_in_domain ys"
  proof -
    from that have "sales_in_domain (xs @ ys)" by (simp add: sales_in_domain_append)
    from compute_total_sales_returns[OF this, of P d] show ?thesis by auto
  qed
  moreover have "fst (compute_total_sales P (JArr []) d) = Inr fzero"
    by (simp add: compute_total_sales_def)
  ultimately show ?thesis by blast
qed

text \<open>Two units and then three units at price 10.\<close>

theorem total_of_concatenation_witness:
  "fst (compute_total_sales (\<lambda>s. None)
        (JArr ([transaction [line_item ''A'' 2]] @ [transaction [line_item ''A'' 3]]))
        [KStr ''A'' \<mapsto> Fin False (10 * one_mag)]) = Inr (Fin False (50 * one_mag))
   \<and> sales_in_domain [transaction [line_item ''A'' 2]]
   \<and> sales_in_domain [transaction [line_item ''A'' 3]]
   \<and> (\<exists>t. fst (compute_total_sales (\<lambda>s. None) (JArr [transaction [line_item ''A'' 2]])
              [KStr ''A'' \<mapsto> Fin False (10 * one_mag)]) = Inr t
        \<and> Fin False (50 * one_mag)
          = foldl fadd t (contributions (\<lambda>s. None) [KStr ''A'' \<mapsto> Fin False (10 * one_mag)]
                  [transaction [line_item ''A'' 3]]))"
proof -
  have "fadd (Fin False (20 * one_mag)) (Fin False (30 * one_mag)) = Fin False (50 * one_mag)"
    using fadd_small[of 20 30] by simp
  then have "fst (compute_total_sales (\<lambda>s. None)
        (JArr ([transaction [line_item ''A'' 2]] @ [transaction [line_item ''A'' 3]]))
        [KStr ''A'' \<mapsto> Fin False (10 * one_mag)]) = Inr (Fin False (50 * one_mag))"
    by (simp add: eval_defs float_of_int_small fmul_small fadd_zero_small
          del: fmul.simps fadd.simps)
  with total_of_concatenation
    [of "\<lambda>s. None" "[transaction [line_item ''A'' 2]]" "[transaction [line_item ''A'' 3]]"
        "[KStr ''A'' \<mapsto> Fin False (10 * one_mag)]" "Fin False (50 * one_mag)"]
  show ?thesis
    by (simp add: sales_in_domain_def is_record_def line_items_def field_def big_quantity_def
          line_item_def transaction_def float_of_int_small)
qed

text \<open>
  Claim C10 as stated adds the two totals. At price 1, \<open>xs\<close> sells \<open>2^53\<close> units and
  \<open>ys\<close> sells one unit twice. Over \<open>xs @ ys\<close> each single unit is rounded away and the
  total stays \<open>2^53\<close>; the total of \<open>ys\<close> is 2, and \<open>2^53 + 2\<close> is a double.
\<close>

theorem sum_of_parts_differs:
  "fst (compute_total_sales (\<lambda>s. None)
      (JArr ([transaction [line_item ''A'' 9007199254740992]]
            @ [transaction [line_item ''A'' 1, line_item ''A'' 1]]))
      [KStr ''A'' \<mapsto> fone]) = Inr (Fin False (9007199254740992 * one_mag))
   \<and> fst (compute_total_sales (\<lambda>s. None) (JArr [transaction [line_item ''A'' 9007199254740992]])
      [KStr ''A'' \<mapsto> fone]) = Inr (Fin False (9007199254740992 * one_mag))
   \<and> fst (compute_total_sales (\<lambda>s. None)
      (JArr [transaction [line_item ''A'' 1, line_item ''A'' 1]])
      [KStr ''A'' \<mapsto> fone]) = Inr (Fin False (2 * one_mag))
   \<and> fadd (Fin False (9007199254740992 * one_mag)) (Fin False (2 * one_mag))
      = Fin False (9007199254740994 * one_mag)
   \<and> Fin False (9007199254740992 * one_mag) \<noteq> Fin False (9007199254740994 * one_mag)"
proof -
  have "Fin False (9007199254740992 * one_mag) \<noteq> Fin False (9007199254740994 * one_mag)"
    by (simp add: one_mag_def)
  then show ?thesis
    by (simp add: eval_defs float_of_int_exact fmul_one_left fadd_zero_left is_double_int
          is_double_one fadd_tie_one fadd_one_one fadd_no_tie
          del: fadd.simps fmul.simps)
qed

section \<open>The claims about the index builder\<close>

text \<open>
  Claim C4, as the code has it. For every price catalogue of N valid entries and no
  invalid entry whose product keys are pairwise distinct, \<open>build_price_dict\<close> returns,
  with nothing printed, a mapping with exactly N keys.
\<close>

theorem distinct_valid_entries_distinct_keys:
  assumes "all_valid P entries" and "distinct (entry_keys P entries)"
  shows "\<exists>d. build_price_dict P (JArr entries) = (Inr d, []) \<and> card (dom d) = length entries"
proof -
  from build_loop_valid[OF assms(1), of Map.empty "[]"]
  obtain d where d: "build_loop P entries (Map.empty, []) = (None, d, [])"
    and dom: "dom d = set (entry_keys P entries)" by auto
  from assms(1) have "length (entry_keys P entries) = length entries"
    by (induction entries) (auto simp: all_valid_def entry_keys_def map_filter_Cons)
  with dom assms(2) have "card (dom d) = length entries"
    by (simp add: distinct_card)
  with d show ?thesis by (simp add: build_price_dict_list)
qed

text \<open>Three entries for the products A, B and C give three keys.\<close>

theorem distinct_valid_entries_distinct_keys_witness:
  "all_valid (\<lambda>s. None)
     [JObj [(''product'', JStr ''A''), (''price'', JInt 5)],
      JObj [(''product'', JStr ''B''), (''price'', JInt 10)],
      JObj [(''product'', JStr ''C''), (''price'', JInt 15)]]
   \<and> distinct (entry_keys (\<lambda>s. None)
     [JObj [(''product'', JStr ''A''), (''price'', JInt 5)],
      JObj [(''product'', JStr ''B''), (''price'', JInt 10)],
      JObj [(''product'', JStr ''C''), (''price'', JInt 15)]])
   \<and> (\<exists>d. build_price_dict (\<lambda>s. None)
       (JArr [JObj [(''product'', JStr ''A''), (''price'', JInt 5)],
              JObj [(''product'', JStr ''B''), (''price'', JInt 10)],
              JObj [(''product'', JStr ''C''), (''price'', JInt 15)]]) = (Inr d, [])
        \<and> card (dom d) = 3)"
  using distinct_valid_entries_distinct_keys
    [of "\<lambda>s. None" "[JObj [(''product'', JStr ''A''), (''price'', JInt 5)],
      JObj [(''product'', JStr ''B''), (''price'', JInt 10)],
      JObj [(''product'', JStr ''C''), (''price'', JInt 15)]]"]
  by (simp add: all_valid_def entry_keys_def catalogue_entry_def field_def List.map_filter_def
        float_of_int_small numeral_3_eq_3)

text \<open>
  Claim C4 as stated counts entries, not products. Two valid entries for the product
  A, and no invalid one, give an index of one key.
\<close>

theorem duplicate_products_one_key:
  "all_valid (\<lambda>s. None)
     [JObj [(''product'', JStr ''A''), (''price'', JInt 1)],
      JObj [(''product'', JStr ''A''), (''price'', JInt 2)]]
   \<and> build_price_dict (\<lambda>s. None)
       (JArr [JObj [(''product'', JStr ''A''), (''price'', JInt 1)],
              JObj [(''product'', JStr ''A''), (''price'', JInt 2)]])
     = (Inr [KStr ''A'' \<mapsto> Fin False (2 * one_mag)], [])
   \<and> card (dom [KStr ''A'' \<mapsto> Fin False (2 * one_mag)]) = 1"
  by (simp add: all_valid_def catalogue_entry_def field_def build_price_dict_def price_entry_def
        float_of_int_small)

text \<open>
  Claim C6. When several entries of a catalogue have the same product key, the price
  that the built index stores for it is the price of the last of them in iteration
  order: the entry after which no valid entry has that key.
\<close>

theorem last_entry_wins:
  assumes "fst (build_price_dict P (JArr (pre @ entry # post))) = Inr d"
    and "catalogue_entry P entry = Some (k, price)"
    and "no_entry_for P k post"
  shows "d k = Some price"
proof -
  obtain r d1 out1 where 1: "build_loop P pre (Map.empty, []) = (r, d1, out1)"
    by (cases "build_loop P pre (Map.empty, [])")
  obtain r2 d2 out2 where 2: "build_loop P post (d1(k \<mapsto> price), out1) = (r2, d2, out2)"
    by (cases "build_loop P post (d1(k \<mapsto> price), out1)")
  from assms(1) 1 have r: "r = None"
    by (cases r) (simp_all add: build_price_dict_list build_loop_append del: build_loop.simps)
  with assms(1) 1 2 have "r2 = None \<and> d2 = d"
    by (cases r2)
       (simp_all add: build_price_dict_list build_loop_append build_loop_Cons_valid[OF assms(2)]
          del: build_loop.simps)
  with 2 build_loop_other_key[OF _ assms(3), of "d1(k \<mapsto> price)" out1 d out2]
  show ?thesis by simp
qed

text \<open>Prices 1 and then 2 for the product A, followed by an entry for B: A costs 2.\<close>

theorem last_entry_wins_witness:
  "fst (build_price_dict (\<lambda>s. None)
       (JArr ([JObj [(''product'', JStr ''A''), (''price'', JInt 1)]]
              @ JObj [(''product'', JStr ''A''), (''price'', JInt 2)]
              # [JObj [(''product'', JStr ''B''), (''price'', JInt 5)]])))
     = Inr [KStr ''A'' \<mapsto> Fin False (2 * one_mag), KStr ''B'' \<mapsto> Fin False (5 * one_mag)]
   \<and> catalogue_entry (\<lambda>s. None) (JObj [(''product'', JStr ''A''), (''price'', JInt 2)])
     = Some (KStr ''A'', Fin False (2 * one_mag))
   \<and> no_entry_for (\<lambda>s. None) (KStr ''A'') [JObj [(''product'', JStr ''B''), (''price'', JInt 5)]]
   \<and> [KStr ''A'' \<mapsto> Fin False (2 * one_mag), KStr ''B'' \<mapsto> Fin False (5 * one_mag)] (KStr ''A'')
     = Some (Fin False (2 * one_mag))"
  using last_entry_wins
    [of "\<lambda>s. None" "[JObj [(''product'', JStr ''A''), (''price'', JInt 1)]]"
        "JObj [(''product'', JStr ''A''), (''price'', JInt 2)]"
        "[JObj [(''product'', JStr ''B''), (''price'', JInt 5)]]"
        "[KStr ''A'' \<mapsto> Fin False (2 * one_mag), KStr ''B'' \<mapsto> Fin False (5 * one_mag)]"
        "KStr ''A''" "Fin False (2 * one_mag)"]
  by (simp add: no_entry_for_def catalogue_entry_def field_def build_price_dict_def price_entry_def
        float_of_int_small)

section \<open>The claims about loading and the exit status\<close>

text \<open>
  Claim C8. The claim has \<open>load_json_file\<close> return \<open>None\<close>, with an \<open>ERROR: ...\<close> line,
  whenever the content of the file is not valid structured data, and its docstring
  says that it loads the file safely. For a file whose bytes are not UTF-8 text the
  code does not: reading it raises \<open>UnicodeDecodeError\<close>, which is a \<open>ValueError\<close> but
  neither \<open>json.JSONDecodeError\<close> nor \<open>OSError\<close> nor \<open>FileNotFoundError\<close>. Nothing is
  printed, the exception leaves \<open>load_json_file\<close> and, uncaught in \<open>main\<close>, ends the
  process.
\<close>

theorem undecodable_file_crashes:
  "load_json_file (\<lambda>f. Undecodable) ''prices.json'' = (Inl UnicodeDecodeError, [])
   \<and> ending (main [''compute_sales.py'', ''prices.json'', ''sales.json'']
        \<lparr>read_file = (\<lambda>f. Undecodable), write_error = None, elapsed = fzero,
          str_float = (\<lambda>s. None)\<rparr>) = Uncaught UnicodeDecodeError"
  by (simp add: load_json_file_def main_def)

text \<open>
  Claim C7, as the code has it. The exit status is 1 when the argument count differs
  from two, and when either document fails to load. It is 0 when both documents load
  and the index builder and the aggregator return, also when every entry and every
  item is invalid. Whether the results file can be written never changes it.
\<close>

theorem exit_status_main:
  "(length argv \<noteq> 3 \<longrightarrow> exit_status (ending (main argv ev)) = 1)
   \<and> (length argv = 3 \<and> (\<not> loads ev (argv ! 1) \<or> \<not> loads ev (argv ! 2)) \<longrightarrow>
        exit_status (ending (main argv ev)) = 1)
   \<and> (length argv = 3 \<and> read_file ev (argv ! 1) = Parsed pd \<and> read_file ev (argv ! 2) = Parsed sd
        \<and> pd \<noteq> JNull \<and> sd \<noteq> JNull
        \<and> build_price_dict (str_float ev) pd = (Inr d, o3)
        \<and> compute_total_sales (str_float ev) sd d = (Inr t, s) \<longrightarrow>
        exit_status (ending (main argv ev)) = 0)
   \<and> exit_status (ending (main argv (ev\<lparr>write_error := w\<rparr>))) = exit_status (ending (main argv ev))"
proof -
  have "length argv \<noteq> 3 \<Longrightarrow> exit_status (ending (main argv ev)) = 1"
    by (simp add: main_def)
  moreover note main_not_loaded[of argv ev] main_completes[of argv ev pd sd d o3 t s]
    main_ending_write[where argv = argv and ev = ev and w = w]
  ultimately show ?thesis by simp
qed

text \<open>
  No arguments; a sales file that does not exist; a catalogue and a sales record with
  only invalid entries and a results file that cannot be written.
\<close>

theorem exit_status_main_witness:
  "exit_status (ending (main [''compute_sales.py''] 
      \<lparr>read_file = (\<lambda>f. NoSuchFile), write_error = None, elapsed = fzero, str_float = (\<lambda>s. None)\<rparr>)) = 1
   \<and> exit_status (ending (main [''compute_sales.py'', ''prices.json'', ''sales.json'']
      \<lparr>read_file = (\<lambda>f. if f = ''prices.json'' then Parsed (JArr []) else NoSuchFile),
        write_error = None, elapsed = fzero, str_float = (\<lambda>s. None)\<rparr>)) = 1
   \<and> exit_status (ending (main [''compute_sales.py'', ''prices.json'', ''sales.json'']
      \<lparr>read_file = (\<lambda>f. if f = ''prices.json'' then Parsed (JArr [JInt 5])
                         else Parsed (JArr [JObj [(''items'', JArr [JInt 5])]])),
        write_error = Some ''disk full'', elapsed = fzero, str_float = (\<lambda>s. None)\<rparr>)) = 0"
  using
    exit_status_main [of "[''compute_sales.py'']"
      "\<lparr>read_file = (\<lambda>f. NoSuchFile), write_error = None, elapsed = fzero, str_float = (\<lambda>s. None)\<rparr>"]
    exit_status_main [of "[''compute_sales.py'', ''prices.json'', ''sales.json'']"
      "\<lparr>read_file = (\<lambda>f. if f = ''prices.json'' then Parsed (JArr []) else NoSuchFile),
        write_error = None, elapsed = fzero, str_float = (\<lambda>s. None)\<rparr>"]
    exit_status_main [of "[''compute_sales.py'', ''prices.json'', ''sales.json'']"
      "\<lparr>read_file = (\<lambda>f. if f = ''prices.json'' then Parsed (JArr [JInt 5])
                         else Parsed (JArr [JObj [(''items'', JArr [JInt 5])]])),
        write_error = Some ''disk full'', elapsed = fzero, str_float = (\<lambda>s. None)\<rparr>"
      "JArr [JInt 5]" "JArr [JObj [(''items'', JArr [JInt 5])]]" Map.empty "[WarnInvalidPrice (JInt 5)]"
      fzero "\<lparr>prices = Map.empty, total = fzero, console = [WarnInvalidItem (JInt 5)]\<rparr>"]
  by (simp add: loads_def build_price_dict_def price_entry_def compute_total_sales_def
        process_sale_def process_item_def item_amount_def item_handler_def emit_def)

text \<open>
  Claim C7 as stated gives the status 1 only to a wrong argument count and to a
  document that fails to load. Both documents below load, and the status is 1: the
  sales record \<open>[5]\<close> makes the aggregator raise \<open>AttributeError\<close>, and the interpreter
  ends a process with an uncaught exception by the status 1.
\<close>

theorem uncaught_gives_status_1:
  "length [''compute_sales.py'', ''prices.json'', ''sales.json''] = 3
   \<and> loads \<lparr>read_file = (\<lambda>f. Parsed (JArr [JInt 5])), write_error = None, elapsed = fzero,
              str_float = (\<lambda>s. None)\<rparr> ''prices.json''
   \<and> loads \<lparr>read_file = (\<lambda>f. Parsed (JArr [JInt 5])), write_error = None, elapsed = fzero,
              str_float = (\<lambda>s. None)\<rparr> ''sales.json''
   \<and> exit_status (ending (main [''compute_sales.py'', ''prices.json'', ''sales.json'']
        \<lparr>read_file = (\<lambda>f. Parsed (JArr [JInt 5])), write_error = None, elapsed = fzero,
          str_float = (\<lambda>s. None)\<rparr>)) = 1"
  by (simp add: loads_def main_def load_json_file_def build_price_dict_def price_entry_def
        compute_total_sales_def process_sale_def)

end
